theory Spec2Isabelle
  imports Main "HOL-Library.Word" "HOL-Library.Multiset"
begin

unbundle bit_operations_syntax

section \<open>Bitonic sorter: data model\<close>

text \<open>
  The program of \<^verbatim>\<open>simple_task/bitonic_sorter.cc\<close> sorts C \<^verbatim>\<open>int\<close> values. An \<^verbatim>\<open>int\<close> is a
  32-bit two's complement integer: it is modelled as a 32-bit word that is compared through
  \<open>sint\<close> (\<open><s\<close>), as \<^verbatim>\<open>operator<\<close> on \<^verbatim>\<open>int\<close> does. A \<^verbatim>\<open>MyVec<int>\<close> wraps a
  \<^verbatim>\<open>std::vector<int>\<close> and is a list. Sizes, counters and indices are natural numbers, or
  integers where the code negates them; they are bounded by the number of command-line
  arguments and their machine width is not modelled.

  The program can stop in ways that are not a result: an \<^verbatim>\<open>assert\<close> that fails, an
  access past the end of a vector or buffer, and an \<^verbatim>\<open>atoi\<close> of a number that no
  \<^verbatim>\<open>int\<close> holds; C++ leaves the last two undefined. They are the values of \<open>error\<close>,
  and every function that can reach one returns \<open>error + 'a\<close>.
\<close>

type_synonym int32 = "32 word"
type_synonym byte = "8 word"

datatype error = AssertionFailed | OutOfBounds | IntOverflow

definition INT_MAX :: int32 where
  "INT_MAX = 2147483647"

definition bind_res :: "error + 'a \<Rightarrow> ('a \<Rightarrow> error + 'b) \<Rightarrow> error + 'b" where
  "bind_res m f = (case m of Inl e \<Rightarrow> Inl e | Inr x \<Rightarrow> f x)"

text \<open>\<^verbatim>\<open>vec[i]\<close>: \<^verbatim>\<open>operator[]\<close> of \<^verbatim>\<open>std::vector\<close> checks nothing.\<close>

definition vec_at :: "'a list \<Rightarrow> nat \<Rightarrow> error + 'a" where
  "vec_at vec i = (if i < length vec then Inr (vec ! i) else Inl OutOfBounds)"

text \<open>\<^verbatim>\<open>vec[i] = v\<close>.\<close>

definition vec_set :: "'a list \<Rightarrow> nat \<Rightarrow> 'a \<Rightarrow> error + 'a list" where
  "vec_set vec i v = (if i < length vec then Inr (vec[i := v]) else Inl OutOfBounds)"

text \<open>A \<^verbatim>\<open>for\<close> loop over the values \<open>xs\<close> of its counter, with the loop's variables as state.\<close>

fun for_each :: "'i list \<Rightarrow> ('i \<Rightarrow> 's \<Rightarrow> error + 's) \<Rightarrow> 's \<Rightarrow> error + 's" where
  "for_each [] body s = Inr s"
| "for_each (x # xs) body s = bind_res (body x s) (for_each xs body)"

text \<open>The counter values of \<^verbatim>\<open>for (int lo = start; lo < stop; lo += step)\<close>.\<close>

function range_step :: "nat \<Rightarrow> nat \<Rightarrow> nat \<Rightarrow> nat list" where
  "range_step start stop step =
     (if start < stop \<and> 0 < step then start # range_step (start + step) stop step else [])"
  by pat_completeness auto
termination
  by (relation "measure (\<lambda>(start, stop, step). stop - start)") auto

declare range_step.simps [simp del]

section \<open>The sequence codec of \<open>MyVec\<close>\<close>

text \<open>
  \<^verbatim>\<open>legion_buffer_size\<close>, \<^verbatim>\<open>legion_serialize\<close> and \<^verbatim>\<open>legion_deserialize\<close> move a vector
  through a caller-supplied byte buffer. The stores \<^verbatim>\<open>*(size_t *)target = ...\<close> and
  \<^verbatim>\<open>*(T*)target = e\<close> write the object representation: 8 bytes for a \<^verbatim>\<open>size_t\<close> and 4 for
  an \<^verbatim>\<open>int\<close>, least significant byte first (LP64, little-endian). The buffer is a list
  of bytes; \<open>target\<close> and \<open>source\<close> are offsets into it. \<open>to_le k n\<close> are the \<open>k\<close>
  low bytes of the number \<open>n\<close> and \<open>from_le\<close> is the number that bytes stand for.
\<close>

definition sizeof_size_t :: nat where
  "sizeof_size_t = 8"

definition sizeof_int :: nat where
  "sizeof_int = 4"

fun to_le :: "nat \<Rightarrow> int \<Rightarrow> byte list" where
  "to_le 0 n = []"
| "to_le (Suc k) n = word_of_int (n mod 256) # to_le k (n div 256)"

fun from_le :: "byte list \<Rightarrow> int" where
  "from_le [] = 0"
| "from_le (b # bs) = uint b + 256 * from_le bs"

definition store :: "byte list \<Rightarrow> nat \<Rightarrow> byte list \<Rightarrow> error + byte list" where
  "store buffer target bs =
     (if target + length bs \<le> length buffer
      then Inr (take target buffer @ bs @ drop (target + length bs) buffer)
      else Inl OutOfBounds)"

definition load :: "byte list \<Rightarrow> nat \<Rightarrow> nat \<Rightarrow> error + byte list" where
  "load buffer source n =
     (if source + n \<le> length buffer then Inr (take n (drop source buffer))
      else Inl OutOfBounds)"

definition legion_buffer_size :: "int32 list \<Rightarrow> nat" where
  "legion_buffer_size vec = fold (\<lambda>e result. result + sizeof_int) vec sizeof_size_t"

fun serialize_loop :: "int32 list \<Rightarrow> byte list \<times> nat \<Rightarrow> error + (byte list \<times> nat)" where
  "serialize_loop [] (buffer, target) = Inr (buffer, target)"
| "serialize_loop (e # es) (buffer, target) =
     bind_res (store buffer target (to_le sizeof_int (uint e)))
       (\<lambda>buffer'. serialize_loop es (buffer', target + sizeof_int))"

text \<open>The result is the buffer after the writes and the returned byte count.\<close>

definition legion_serialize :: "int32 list \<Rightarrow> byte list \<Rightarrow> error + (byte list \<times> nat)" where
  "legion_serialize vec buffer =
     bind_res (store buffer 0 (to_le sizeof_size_t (int (length vec))))
       (\<lambda>buffer'. bind_res (serialize_loop vec (buffer', sizeof_size_t))
          (\<lambda>(buffer'', target). Inr (buffer'', target - 0)))"

text \<open>
  \<^verbatim>\<open>vec.resize(length)\<close> followed by the loop that overwrites every element: the loop
  runs \<open>length\<close> times, and the old contents of \<open>vec\<close> do not reach the result.
\<close>

fun deserialize_loop :: "nat \<Rightarrow> byte list \<Rightarrow> int32 list \<times> nat \<Rightarrow> error + (int32 list \<times> nat)" where
  "deserialize_loop 0 buffer (vec, source) = Inr (vec, source)"
| "deserialize_loop (Suc k) buffer (vec, source) =
     bind_res (load buffer source sizeof_int)
       (\<lambda>bs. deserialize_loop k buffer (vec @ [word_of_int (from_le bs)], source + sizeof_int))"

text \<open>The result is the vector read and the returned byte count.\<close>

definition legion_deserialize :: "byte list \<Rightarrow> error + (int32 list \<times> nat)" where
  "legion_deserialize buffer =
     bind_res (load buffer 0 sizeof_size_t)
       (\<lambda>bs. bind_res (deserialize_loop (nat (from_le bs)) buffer ([], sizeof_size_t))
          (\<lambda>(vec, source). Inr (vec, source - 0)))"

section \<open>The comparator task\<close>

text \<open>\<^verbatim>\<open>std::min(a, b)\<close> is \<^verbatim>\<open>(b < a) ? b : a\<close> and \<^verbatim>\<open>std::max(a, b)\<close> is \<^verbatim>\<open>(a < b) ? b : a\<close>.\<close>

definition std_min :: "int32 \<Rightarrow> int32 \<Rightarrow> int32" where
  "std_min a b = (if b <s a then b else a)"

definition std_max :: "int32 \<Rightarrow> int32 \<Rightarrow> int32" where
  "std_max a b = (if a <s b then b else a)"

text \<open>
  The task argument is the array \<open>values\<close> of \<^verbatim>\<open>arglen / sizeof(int)\<close> integers; the
  assertion on \<^verbatim>\<open>arglen\<close> is one on its length.
\<close>

definition single_swap_task :: "int32 list \<Rightarrow> error + int32 list" where
  "single_swap_task values =
     (if length values * sizeof_int \<noteq> sizeof_int * 2 then Inl AssertionFailed
      else Inr [std_min (values ! 0) (values ! 1), std_max (values ! 0) (values ! 1)])"

text \<open>The bytes the element loop of the serializer writes, for stating what it does.\<close>

definition encode_ints :: "int32 list \<Rightarrow> byte list" where
  "encode_ints es = concat (map (\<lambda>e. to_le sizeof_int (uint e)) es)"

section \<open>Futures\<close>

text \<open>
  \<^verbatim>\<open>runtime->execute_task\<close> returns a \<^verbatim>\<open>Future\<close> and \<^verbatim>\<open>get_result\<close> waits for the
  task's value. The tasks are pure, so a future is the outcome of its task, and
  \<^verbatim>\<open>get_result\<close> hands it over: with a failed task the program has stopped. The value
  crosses the task boundary through the codec above, which returns it unchanged. The
  diagnostic \<^verbatim>\<open>printf\<close> and \<^verbatim>\<open>debug\<close> lines of the tasks are left out.
\<close>

type_synonym future = "error + int32 list"

text \<open>
  \<^verbatim>\<open>auto values = res.get_result<MyVec<int>>(); sorted[p] = values[0]; sorted[q] = values[1];\<close>
  The vector \<^verbatim>\<open>sorted\<close> of the source is \<open>sorted_v\<close> here: \<open>sorted\<close> is the order
  predicate of HOL.
\<close>

definition store_pair :: "int32 list \<Rightarrow> nat \<Rightarrow> nat \<Rightarrow> future \<Rightarrow> error + int32 list" where
  "store_pair sorted_v p q res =
     bind_res res (\<lambda>values.
     bind_res (vec_at values 0) (\<lambda>v0.
     bind_res (vec_set sorted_v p v0) (\<lambda>sorted_v'.
     bind_res (vec_at values 1) (\<lambda>v1.
     vec_set sorted_v' q v1))))"

text \<open>
  \<^verbatim>\<open>int args[] = {vec1[p], vec2[q]}\<close>, a \<^verbatim>\<open>single_swap\<close> task launched on them, and
  \<^verbatim>\<open>results.push_back(res)\<close>.
\<close>

definition launch_swap :: "int32 list \<Rightarrow> nat \<Rightarrow> int32 list \<Rightarrow> nat \<Rightarrow> future list \<Rightarrow> error + future list" where
  "launch_swap vec1 p vec2 q results =
     bind_res (vec_at vec1 p) (\<lambda>a.
     bind_res (vec_at vec2 q) (\<lambda>b.
     Inr (results @ [single_swap_task [a, b]])))"

section \<open>The merge task\<close>

text \<open>The two loops of the cross phase (lines 175 to 186).\<close>

definition crosswork_launch :: "int32 list \<Rightarrow> int32 list \<Rightarrow> nat \<Rightarrow> error + future list" where
  "crosswork_launch vec1 vec2 num_vec =
     for_each [0..<num_vec] (\<lambda>i results. launch_swap vec1 i vec2 (num_vec - i - 1) results) []"

definition crosswork_collect :: "future list \<Rightarrow> nat \<Rightarrow> nat \<Rightarrow> int32 list \<Rightarrow> error + int32 list" where
  "crosswork_collect results num_vec num_total sorted_v =
     for_each [0..<num_vec]
       (\<lambda>i sorted_v. bind_res (vec_at results i) (store_pair sorted_v i (num_total - i - 1)))
       sorted_v"

text \<open>The two loop nests of one round of the second phase (lines 192 to 211).\<close>

definition stage_launch :: "int32 list \<Rightarrow> nat \<Rightarrow> nat \<Rightarrow> error + future list" where
  "stage_launch sorted_v num_total gap =
     for_each (range_step 0 num_total gap)
       (\<lambda>lo results.
          let half_sz = gap div 2 in
          for_each [0..<half_sz]
            (\<lambda>i results. launch_swap sorted_v (lo + i) sorted_v (lo + i + half_sz) results)
            results)
       []"

definition stage_collect :: "future list \<Rightarrow> nat \<Rightarrow> nat \<Rightarrow> int32 list \<Rightarrow> error + int32 list" where
  "stage_collect results num_total gap sorted_v =
     bind_res
       (for_each (range_step 0 num_total gap)
          (\<lambda>lo (sorted_v, j).
             let half_sz = gap div 2 in
             for_each [0..<half_sz]
               (\<lambda>i (sorted_v, j).
                  bind_res (vec_at results j) (\<lambda>res.
                  bind_res (store_pair sorted_v (lo + i) (lo + i + half_sz) res) (\<lambda>sorted_v'.
                  Inr (sorted_v', j + 1))))
               (sorted_v, j))
          (sorted_v, 0))
       (\<lambda>(sorted_v, j). Inr sorted_v)"

text \<open>
  Lines 165 to 187: the working buffer \<^verbatim>\<open>MyVec<int> sorted(num_total)\<close>, which starts
  as zeros, after the cross phase.
\<close>

definition crosswork :: "int32 list \<Rightarrow> int32 list \<Rightarrow> error + int32 list" where
  "crosswork vec1 vec2 =
     (let num_vec = length vec1;
          num_total = num_vec * 2;
          sorted_v = replicate num_total 0
      in
      bind_res (crosswork_launch vec1 vec2 num_vec) (\<lambda>results.
      crosswork_collect results num_vec num_total sorted_v))"

text \<open>\<^verbatim>\<open>for (int gap = num_vec; gap > 1; gap /= 2)\<close>\<close>

function sort_stages :: "nat \<Rightarrow> nat \<Rightarrow> int32 list \<Rightarrow> error + int32 list" where
  "sort_stages gap num_total sorted_v =
     (if gap > 1 then
        (case stage_launch sorted_v num_total gap of
           Inl e \<Rightarrow> Inl e
         | Inr results \<Rightarrow>
             (case stage_collect results num_total gap sorted_v of
                Inl e \<Rightarrow> Inl e
              | Inr sorted_v' \<Rightarrow> sort_stages (gap div 2) num_total sorted_v'))
      else Inr sorted_v)"
  by pat_completeness auto
termination
  by (relation "measure (\<lambda>(gap, num_total, sorted_v). gap)") auto

declare sort_stages.simps [simp del]

definition subsorter_task :: "future list \<Rightarrow> error + int32 list" where
  "subsorter_task futures =
     (if length futures \<noteq> 2 then Inl AssertionFailed
      else
        bind_res (futures ! 0) (\<lambda>vec1.
        bind_res (futures ! 1) (\<lambda>vec2.
        if length vec1 \<noteq> length vec2 then Inl AssertionFailed
        else
          let num_vec = length vec1;
              num_total = num_vec * 2
          in
          bind_res (crosswork vec1 vec2) (\<lambda>sorted_v.
          sort_stages num_vec num_total sorted_v))))"

section \<open>The top-level task\<close>

text \<open>
  \<^verbatim>\<open>atoi\<close> is the C library's: it skips white space, reads an optional sign and then
  decimal digits up to the first character that is not one, and returns 0 when there is
  no digit. The standard leaves the result undefined when the number is not an \<^verbatim>\<open>int\<close>.
\<close>

definition isspace :: "char \<Rightarrow> bool" where
  "isspace c = (c \<in> set [CHR '' '', CHR 0x09, CHR 0x0A, CHR 0x0B, CHR 0x0C, CHR 0x0D])"

definition isdigit :: "char \<Rightarrow> bool" where
  "isdigit c = (48 \<le> (of_char c :: nat) \<and> (of_char c :: nat) \<le> 57)"

fun digits_value :: "int \<Rightarrow> string \<Rightarrow> int" where
  "digits_value acc [] = acc"
| "digits_value acc (c # cs) =
     (if isdigit c then digits_value (10 * acc + (of_char c - 48)) cs else acc)"

definition to_int32 :: "int \<Rightarrow> error + int32" where
  "to_int32 v = (if - (2 ^ 31) \<le> v \<and> v < 2 ^ 31 then Inr (word_of_int v) else Inl IntOverflow)"

definition atoi :: "string \<Rightarrow> error + int32" where
  "atoi s =
     (case dropWhile isspace s of
        [] \<Rightarrow> Inr 0
      | c # cs \<Rightarrow>
          if c = CHR ''-'' then to_int32 (- digits_value 0 cs)
          else if c = CHR ''+'' then to_int32 (digits_value 0 cs)
          else to_int32 (digits_value 0 (c # cs)))"

text \<open>\<^verbatim>\<open>argv[i][0]\<close>: the first character of a C string, the terminating NUL when it is empty.\<close>

definition first_char :: "string \<Rightarrow> char" where
  "first_char s = (case s of [] \<Rightarrow> CHR 0x00 | c # cs \<Rightarrow> c)"

text \<open>
  The input loop (lines 91 to 99); \<open>argv\<close> is the whole argument vector, the program's
  name first, and \<^verbatim>\<open>argc\<close> its length. The body changes the counter, so the loop is a
  recursion on it.
\<close>

function handle_inputs :: "string list \<Rightarrow> nat \<Rightarrow> int32 list \<times> nat \<Rightarrow> error + (int32 list \<times> nat)" where
  "handle_inputs argv i (nums, num_inputs) =
     (if i < length argv then
        (if first_char (argv ! i) = CHR ''-'' then
           handle_inputs argv (i + 1 + 1) (nums, num_inputs)
         else
           (case atoi (argv ! i) of
              Inl e \<Rightarrow> Inl e
            | Inr input \<Rightarrow> handle_inputs argv (i + 1) (nums @ [input], num_inputs + 1)))
      else Inr (nums, num_inputs))"
  by pat_completeness auto
termination
  by (relation "measure (\<lambda>(argv, i, s). length argv - i)") auto

declare handle_inputs.simps [simp del]

text \<open>
  For the termination of the \<^verbatim>\<open>while\<close> loop of line 105 and for what it computes:
  the exponent of the least power of two that is not below \<open>n\<close>.
\<close>

definition pow2_exponent :: "int \<Rightarrow> nat" where
  "pow2_exponent n = (LEAST k. n \<le> 2 ^ k)"

text \<open>
  What the loop needs to end: \<open>n AND - n\<close> is the lowest set bit of \<open>n\<close>, a power of two
  that divides \<open>n\<close>, so adding it keeps a positive \<open>n\<close> at or below the next power of two
  and moves a negative \<open>n\<close> towards 0.
\<close>

lemma lowbit_double: "(2 * n) AND (- (2 * n)) = 2 * (n AND (- n))" for n :: int
  by (rule bit_eqI) (auto simp: bit_simps simp flip: mult_minus_right)

lemma lowbit_odd: "odd n \<Longrightarrow> n AND (- n) = 1" for n :: int
proof -
  assume odd: "odd n"
  then obtain m where n: "n = 1 + 2 * m"
    by (auto elim: oddE)
  have "(- n) div 2 = NOT (n div 2)"
    by (simp add: n not_int_def)
  then have "(n div 2) AND ((- n) div 2) = 0"
    by simp
  then show ?thesis
    using odd by (subst and_rec) simp
qed

lemma lowbit_pos:
  fixes n :: int
  assumes "0 < n"
  shows "\<exists>j. n AND (- n) = 2 ^ j \<and> 2 ^ j dvd n"
  using assms
proof (induction "nat n" arbitrary: n rule: less_induct)
  case less
  show ?case
  proof (cases "even n")
    case True
    then obtain m where n: "n = 2 * m" by (auto elim: evenE)
    with less.prems have m: "0 < m" "nat m < nat n" by auto
    from less.hyps [OF m(2) m(1)] obtain j where j: "m AND (- m) = 2 ^ j" "2 ^ j dvd m"
      by blast
    have "n AND (- n) = 2 ^ Suc j \<and> 2 ^ Suc j dvd n"
      unfolding n lowbit_double using j by simp
    then show ?thesis by blast
  next
    case False
    then have "n AND (- n) = 2 ^ 0 \<and> 2 ^ 0 dvd n"
      by (simp add: lowbit_odd)
    then show ?thesis by blast
  qed
qed

lemma lowbit_nonzero:
  fixes n :: int
  assumes "n \<noteq> 0"
  shows "\<exists>j. n AND (- n) = 2 ^ j \<and> 2 ^ j dvd n"
proof (cases "0 < n")
  case True
  then show ?thesis by (rule lowbit_pos)
next
  case False
  with assms have "0 < - n" by simp
  from lowbit_pos [OF this] show ?thesis
    by (simp add: and.commute)
qed

lemma lowbit_pow2: "(2 ^ k) AND (- (2 ^ k)) = (2 ^ k :: int)"
  by (induction k) (simp_all add: lowbit_double lowbit_odd)

lemma pow2_exponent_ge: "n \<le> 2 ^ pow2_exponent n"
proof -
  have "n \<le> 2 ^ nat n"
  proof (cases "0 \<le> n")
    case True
    have "nat n < 2 ^ nat n"
      by (rule less_exp)
    then have "int (nat n) < int (2 ^ nat n)"
      by (simp only: of_nat_less_iff)
    then have "int (nat n) < 2 ^ nat n"
      by simp
    with True show ?thesis by simp
  next
    case False
    have "(0 :: int) \<le> 2 ^ nat n" by simp
    with False show ?thesis by linarith
  qed
  then show ?thesis
    unfolding pow2_exponent_def by (rule LeastI)
qed

lemma pow2_exponent_le: "n \<le> 2 ^ k \<Longrightarrow> pow2_exponent n \<le> k"
  unfolding pow2_exponent_def by (rule Least_le)

lemma pow2_exponent_pow2: "pow2_exponent (2 ^ j) = j"
proof (rule antisym)
  show "pow2_exponent (2 ^ j) \<le> j"
    by (rule pow2_exponent_le) simp
  have "(2 :: int) ^ j \<le> 2 ^ pow2_exponent (2 ^ j)"
    by (rule pow2_exponent_ge)
  then show "j \<le> pow2_exponent (2 ^ j)"
    by simp
qed

text \<open>One step of the loop stays below the next power of two.\<close>

lemma lowbit_step:
  fixes n :: int
  assumes "0 < n" and "n \<noteq> (n AND (- n))"
  shows "0 < (n AND (- n))"
    and "n + (n AND (- n)) \<le> 2 ^ pow2_exponent n"
    and "pow2_exponent (n + (n AND (- n))) = pow2_exponent n"
proof -
  obtain j where j: "n AND (- n) = 2 ^ j" "2 ^ j dvd n"
    using lowbit_pos [OF assms(1)] by blast
  let ?K = "pow2_exponent n"
  show pos: "0 < (n AND (- n))"
    by (simp add: j)
  have nK: "n \<le> 2 ^ ?K"
    by (rule pow2_exponent_ge)
  have "n \<noteq> 2 ^ ?K"
    using assms(2) lowbit_pow2 [of ?K] by auto
  with nK have lt: "0 < 2 ^ ?K - n"
    by simp
  have "(2 :: int) ^ j \<le> n"
    using j(2) assms(1) by (rule zdvd_imp_le)
  then have "(2 :: int) ^ j \<le> 2 ^ ?K"
    using nK by (rule order_trans)
  then have "j \<le> ?K"
    by simp
  then have "(2 :: int) ^ j dvd 2 ^ ?K"
    by (rule le_imp_power_dvd)
  then have "(2 :: int) ^ j dvd 2 ^ ?K - n"
    using j(2) by (rule dvd_diff)
  then have "(2 :: int) ^ j \<le> 2 ^ ?K - n"
    using lt by (rule zdvd_imp_le)
  then show le: "n + (n AND (- n)) \<le> 2 ^ ?K"
    by (simp add: j)
  show "pow2_exponent (n + (n AND (- n))) = ?K"
  proof (rule antisym)
    show "pow2_exponent (n + (n AND (- n))) \<le> ?K"
      using le by (rule pow2_exponent_le)
    have "n \<le> n + (n AND (- n))"
      using pos by linarith
    also have "\<dots> \<le> 2 ^ pow2_exponent (n + (n AND (- n)))"
      by (rule pow2_exponent_ge)
    finally show "?K \<le> pow2_exponent (n + (n AND (- n)))"
      by (rule pow2_exponent_le)
  qed
qed

lemma lowbit_step_neg:
  fixes n :: int
  assumes "n < 0"
  shows "0 < (n AND (- n))" and "n + (n AND (- n)) \<le> 0"
proof -
  obtain j where j: "n AND (- n) = 2 ^ j" "2 ^ j dvd n"
    using lowbit_nonzero [of n] assms by auto
  show "0 < (n AND (- n))"
    by (simp add: j)
  have "(2 :: int) ^ j dvd - n"
    using j(2) by simp
  then have "(2 :: int) ^ j \<le> - n"
    using assms by (intro zdvd_imp_le) auto
  then show "n + (n AND (- n)) \<le> 0"
    by (simp add: j)
qed

text \<open>\<^verbatim>\<open>while (num_total != (num_total & (-num_total))) num_total += (num_total & (-num_total));\<close>\<close>

function next_pow2_loop :: "int \<Rightarrow> int" where
  "next_pow2_loop num_total =
     (if num_total \<noteq> (num_total AND (- num_total))
      then next_pow2_loop (num_total + (num_total AND (- num_total)))
      else num_total)"
  by pat_completeness auto
termination
proof (relation "measure (\<lambda>n. if n < 0 then nat (2 - n) else nat (2 ^ pow2_exponent n - n))")
  show "wf (measure (\<lambda>n. if n < 0 then nat (2 - n) else nat (2 ^ pow2_exponent n - n)))"
    by simp
next
  fix num_total :: int
  assume ne: "num_total \<noteq> (num_total AND (- num_total))"
  let ?n' = "num_total + (num_total AND (- num_total))"
  consider "num_total < 0" | "num_total = 0" | "0 < num_total"
    by linarith
  then show "(?n', num_total) \<in>
      measure (\<lambda>n. if n < 0 then nat (2 - n) else nat (2 ^ pow2_exponent n - n))"
  proof cases
    case 1
    note neg = lowbit_step_neg [OF 1]
    show ?thesis
    proof (cases "?n' < 0")
      case True
      then show ?thesis using 1 neg by simp
    next
      case False
      with neg have z: "?n' = 0" by simp
      have "pow2_exponent 0 = 0"
        by (simp add: pow2_exponent_def)
      then show ?thesis unfolding z using 1 by simp
    qed
  next
    case 2
    with ne show ?thesis by simp
  next
    case 3
    note st = lowbit_step [OF 3 ne]
    have "\<not> ?n' < 0" using 3 st(1) by simp
    moreover have "\<not> num_total < 0" using 3 by simp
    ultimately show ?thesis
      using st by simp
  qed
qed

declare next_pow2_loop.simps [simp del]

text \<open>Lines 104 to 110: the padded vector and \<open>num_total\<close>.\<close>

definition pad_inputs :: "int32 list \<Rightarrow> nat \<Rightarrow> int32 list \<times> nat" where
  "pad_inputs nums num_inputs =
     (let num_total = nat (next_pow2_loop (int num_inputs)) in
      (fold (\<lambda>i nums. nums @ [INT_MAX]) [num_inputs..<num_total] nums, num_total))"

text \<open>Lines 117 to 123: one comparator task for each adjacent pair.\<close>

definition first_round :: "int32 list \<Rightarrow> nat \<Rightarrow> error + future list" where
  "first_round nums num_total =
     for_each (range_step 0 num_total 2)
       (\<lambda>lo results. launch_swap nums lo nums (lo + 1) results) []"

text \<open>
  Lines 128 to 139, the body of the loop over \<open>gap\<close>: \<open>prev\<close> is
  \<^verbatim>\<open>iterResults.back()\<close>. A merge task is launched on two futures and its future is the
  task's outcome on them.
\<close>

definition merge_round :: "future list \<Rightarrow> nat \<Rightarrow> nat \<Rightarrow> error + future list" where
  "merge_round prev num_total gap =
     bind_res
       (for_each (range_step 0 num_total gap)
          (\<lambda>lo (results, j).
             bind_res (vec_at prev (j * 2)) (\<lambda>f1.
             bind_res (vec_at prev (j * 2 + 1)) (\<lambda>f2.
             Inr (results @ [subsorter_task [f1, f2]], j + 1))))
          ([], 0))
       (\<lambda>(results, j). Inr results)"

text \<open>
  \<^verbatim>\<open>for (int gap = 4; gap <= num_total; gap <<= 1)\<close>. The loop starts at 4; the test
  \<open>0 < gap\<close> is what lets the definition end from every \<open>gap\<close>.
\<close>

function merge_rounds :: "nat \<Rightarrow> nat \<Rightarrow> future list list \<Rightarrow> error + future list list" where
  "merge_rounds gap num_total iterResults =
     (if gap \<le> num_total \<and> 0 < gap then
        (case merge_round (last iterResults) num_total gap of
           Inl e \<Rightarrow> Inl e
         | Inr results \<Rightarrow> merge_rounds (gap * 2) num_total (iterResults @ [results]))
      else Inr iterResults)"
  by pat_completeness auto
termination
  by (relation "measure (\<lambda>(gap, num_total, iterResults). num_total + 1 - gap)") auto

declare merge_rounds.simps [simp del]

text \<open>Lines 115 to 146: the rounds, the final future and the two assertions on it.\<close>

definition sort_padded :: "int32 list \<Rightarrow> nat \<Rightarrow> error + int32 list" where
  "sort_padded nums num_total =
     bind_res (first_round nums num_total) (\<lambda>results.
     bind_res (merge_rounds 4 num_total [results]) (\<lambda>iterResults.
     if length (last iterResults) \<noteq> 1 then Inl AssertionFailed
     else
       bind_res (last iterResults ! 0) (\<lambda>sorted_v.
       if length sorted_v \<noteq> num_total then Inl AssertionFailed else Inr sorted_v)))"

text \<open>\<^verbatim>\<open>print_myvec\<close> writes \<^verbatim>\<open>#\<close> for \<^verbatim>\<open>INT_MAX\<close> and the number otherwise.\<close>

datatype printed = Hash | Number int32

definition shown :: "int32 \<Rightarrow> printed" where
  "shown v = (if v = INT_MAX then Hash else Number v)"

definition print_myvec :: "int32 list \<Rightarrow> nat \<Rightarrow> nat \<Rightarrow> error + printed list" where
  "print_myvec sorted_v start stop =
     for_each [start..<stop]
       (\<lambda>i out. bind_res (vec_at sorted_v i) (\<lambda>v. Inr (out @ [shown v]))) []"

text \<open>The task: its result is what it prints after \<^verbatim>\<open>sorting results:\<close>.\<close>

definition top_level_task :: "string list \<Rightarrow> error + printed list" where
  "top_level_task argv =
     bind_res (handle_inputs argv 1 ([], 0)) (\<lambda>(nums, num_inputs).
     if \<not> num_inputs > 0 then Inl AssertionFailed
     else
       let (nums, num_total) = pad_inputs nums num_inputs in
       bind_res (sort_padded nums num_total) (\<lambda>sorted_v.
       print_myvec sorted_v 0 num_inputs))"

section \<open>Notions the properties are stated with\<close>

text \<open>
  A token is a flag when it begins with \<^verbatim>\<open>-\<close>. \<open>inputs_by_spec\<close> reads the description
  of the command line word for word: a token is left out when it is a flag or when the
  token before it is one. \<open>input_tokens\<close> describes the loop by positions: a token is
  read when it is no flag and the unbroken run of flags that ends just before it has even
  length. \<open>scan\<close> is the loop as a recursion on the list of tokens. \<open>read_tokens\<close> is
  \<^verbatim>\<open>atoi\<close> on each token in order, with the count. \<open>no_number\<close> holds of a string in
  which \<^verbatim>\<open>atoi\<close> finds no digit to read.
\<close>

definition is_flag :: "string \<Rightarrow> bool" where
  "is_flag t = (first_char t = CHR ''-'')"

definition skipped_by_spec :: "string list \<Rightarrow> nat \<Rightarrow> bool" where
  "skipped_by_spec args i = (is_flag (args ! i) \<or> (0 < i \<and> is_flag (args ! (i - 1))))"

definition inputs_by_spec :: "string list \<Rightarrow> string list" where
  "inputs_by_spec args = map (\<lambda>i. args ! i) (filter (\<lambda>i. \<not> skipped_by_spec args i) [0..<length args])"

definition flags_before :: "string list \<Rightarrow> nat \<Rightarrow> nat" where
  "flags_before args i = length (takeWhile is_flag (rev (take i args)))"

definition taken :: "string list \<Rightarrow> nat \<Rightarrow> bool" where
  "taken args i = (\<not> is_flag (args ! i) \<and> even (flags_before args i))"

definition input_tokens :: "string list \<Rightarrow> string list" where
  "input_tokens args = map (\<lambda>i. args ! i) (filter (taken args) [0..<length args])"

fun atoi_all :: "string list \<Rightarrow> error + int32 list" where
  "atoi_all [] = Inr []"
| "atoi_all (t # ts) =
     bind_res (atoi t) (\<lambda>v. bind_res (atoi_all ts) (\<lambda>vs. Inr (v # vs)))"

definition read_tokens :: "string list \<Rightarrow> error + (int32 list \<times> nat)" where
  "read_tokens ts = bind_res (atoi_all ts) (\<lambda>vs. Inr (vs, length vs))"

fun scan :: "string list \<Rightarrow> string list" where
  "scan [] = []"
| "scan (t # ts) = (if is_flag t then scan (drop 1 ts) else t # scan ts)"

definition no_number :: "string \<Rightarrow> bool" where
  "no_number s =
     (case dropWhile isspace s of
        [] \<Rightarrow> True
      | c # cs \<Rightarrow>
          if c = CHR ''-'' \<or> c = CHR ''+'' then (case cs of [] \<Rightarrow> True | d # ds \<Rightarrow> \<not> isdigit d)
          else \<not> isdigit c)"

text \<open>
  For the merge task: \<open>swapped a b\<close> is the future of a comparator task on \<open>(a, b)\<close>;
  \<open>cross_buffer\<close> is the working buffer that the cross phase leaves; \<open>stage_results\<close>
  are the futures that one round of the second phase launches on \<open>c\<close> blocks of \<open>2 * h\<close>
  slots, and \<open>half_clean_all\<close> is the buffer after that round, block by block.
\<close>

definition swapped :: "int32 \<Rightarrow> int32 \<Rightarrow> future" where
  "swapped a b = Inr [std_min a b, std_max a b]"

definition cross_buffer :: "int32 list \<Rightarrow> int32 list \<Rightarrow> int32 list" where
  "cross_buffer vec1 vec2 =
     (let m = length vec1 in
      map (\<lambda>i. std_min (vec1 ! i) (vec2 ! (m - i - 1))) [0..<m] @
      map (\<lambda>j. std_max (vec1 ! (m - j - 1)) (vec2 ! j)) [0..<m])"

definition half_clean_block :: "nat \<Rightarrow> int32 list \<Rightarrow> nat \<Rightarrow> int32 list" where
  "half_clean_block h xs lo =
     map (\<lambda>i. std_min (xs ! (lo + i)) (xs ! (lo + i + h))) [0..<h] @
     map (\<lambda>i. std_max (xs ! (lo + i)) (xs ! (lo + i + h))) [0..<h]"

definition half_clean_all :: "nat \<Rightarrow> nat \<Rightarrow> int32 list \<Rightarrow> int32 list" where
  "half_clean_all h c xs = concat (map (\<lambda>b. half_clean_block h xs (b * (2 * h))) [0..<c])"

definition stage_results :: "nat \<Rightarrow> nat \<Rightarrow> int32 list \<Rightarrow> future list" where
  "stage_results h c xs =
     concat (map (\<lambda>b. map (\<lambda>i. swapped (xs ! (b * (2 * h) + i)) (xs ! (b * (2 * h) + i + h))) [0..<h])
       [0..<c])"

text \<open>
  The invariant of the rounds. For a threshold \<open>t\<close>, the slots of a block that hold a
  value of at least \<open>t\<close> form a run \<open>a \<le> i < b\<close> of the block or the complement of one:
  a run that may wrap around the end of the block. \<open>bitonic_blocks h c xs\<close> says that
  \<open>xs\<close> is \<open>c\<close> blocks of \<open>h\<close> slots, that this holds of every block at every threshold,
  and that no element of a block is greater than an element of a later block.
\<close>

definition in_run :: "nat \<Rightarrow> nat \<Rightarrow> nat \<Rightarrow> bool" where
  "in_run a b i = (a \<le> i \<and> i < b)"

definition cyclic_run :: "nat \<Rightarrow> (nat \<Rightarrow> bool) \<Rightarrow> bool" where
  "cyclic_run h p = (\<exists>a b. (\<forall>i<h. p i = in_run a b i) \<or> (\<forall>i<h. p i = (\<not> in_run a b i)))"

definition bitonic_blocks :: "nat \<Rightarrow> nat \<Rightarrow> int32 list \<Rightarrow> bool" where
  "bitonic_blocks h c xs =
     (length xs = c * h \<and>
      (\<forall>b<c. \<forall>t. cyclic_run h (\<lambda>i. t \<le> sint (xs ! (b * h + i)))) \<and>
      (\<forall>b b' i j. b < b' \<longrightarrow> b' < c \<longrightarrow> i < h \<longrightarrow> j < h \<longrightarrow>
         sint (xs ! (b * h + i)) \<le> sint (xs ! (b' * h + j))))"

text \<open>
  Order and shape of a sequence of \<^verbatim>\<open>int\<close> values, compared as signed integers. A
  sequence rises then falls when it splits into a non-decreasing part followed by a
  non-increasing one; it is bitonic when some rotation of it rises then falls or falls
  then rises.
\<close>

definition ascending :: "int32 list \<Rightarrow> bool" where
  "ascending xs = sorted (map sint xs)"

definition descending :: "int32 list \<Rightarrow> bool" where
  "descending xs = sorted (rev (map sint xs))"

definition rises_then_falls :: "int32 list \<Rightarrow> bool" where
  "rises_then_falls xs =
     list_ex (\<lambda>k. ascending (take k xs) \<and> descending (drop k xs)) [0..<Suc (length xs)]"

definition falls_then_rises :: "int32 list \<Rightarrow> bool" where
  "falls_then_rises xs =
     list_ex (\<lambda>k. descending (take k xs) \<and> ascending (drop k xs)) [0..<Suc (length xs)]"

definition bitonic :: "int32 list \<Rightarrow> bool" where
  "bitonic xs =
     list_ex (\<lambda>r. rises_then_falls (rotate r xs) \<or> falls_then_rises (rotate r xs))
       [0..<Suc (length xs)]"

text \<open>
  For the rounds of the top-level task: \<open>merged\<close> is the vector that a merge task
  returns; \<open>pairs_sorted\<close> are the vectors of the first round's futures and
  \<open>merge_pairs\<close> those of a later round; \<open>sorted_blocks k\<close> holds of a round whose
  vectors all have \<open>2 ^ k\<close> elements in non-decreasing order.
\<close>

definition merged :: "int32 list \<Rightarrow> int32 list \<Rightarrow> int32 list" where
  "merged vec1 vec2 = (case subsorter_task [Inr vec1, Inr vec2] of Inl e \<Rightarrow> [] | Inr out \<Rightarrow> out)"

definition sorted_blocks :: "nat \<Rightarrow> int32 list list \<Rightarrow> bool" where
  "sorted_blocks k blocks = (\<forall>b \<in> set blocks. length b = 2 ^ k \<and> sorted (map sint b))"

definition pairs_sorted :: "int32 list \<Rightarrow> nat \<Rightarrow> int32 list list" where
  "pairs_sorted nums c =
     map (\<lambda>b. [std_min (nums ! (b * 2)) (nums ! (b * 2 + 1)),
                std_max (nums ! (b * 2)) (nums ! (b * 2 + 1))]) [0..<c]"

definition merge_pairs :: "int32 list list \<Rightarrow> nat \<Rightarrow> int32 list list" where
  "merge_pairs blocks c = map (\<lambda>j. merged (blocks ! (j * 2)) (blocks ! (j * 2 + 1))) [0..<c]"

section \<open>The codec: sizes and round trip\<close>

lemma length_to_le: "length (to_le k n) = k"
  by (induction k arbitrary: n) auto

lemma from_le_to_le: "from_le (to_le k n) = n mod 256 ^ k"
proof (induction k arbitrary: n)
  case 0
  show ?case by simp
next
  case (Suc k)
  have "uint (word_of_int (n mod 256) :: byte) = n mod 256"
    by (simp add: uint_word_of_int)
  then have "from_le (to_le (Suc k) n) = n mod 256 + 256 * ((n div 256) mod 256 ^ k)"
    by (simp add: Suc.IH)
  also have "\<dots> = n mod 256 ^ Suc k"
    by (simp add: zmod_zmult2_eq)
  finally show ?case .
qed

lemma int32_le_roundtrip: "word_of_int (from_le (to_le sizeof_int (uint e))) = (e :: int32)"
proof -
  have "0 \<le> uint e" "uint e < 2 ^ 32"
    using uint_lt2p [of e] by simp_all
  then have "uint e mod 256 ^ 4 = uint e"
    by simp
  then show ?thesis
    by (simp add: from_le_to_le sizeof_int_def)
qed

lemma size_le_roundtrip:
  "length vec < 2 ^ 64 \<Longrightarrow> nat (from_le (to_le sizeof_size_t (int (length vec)))) = length vec"
proof -
  assume "length vec < 2 ^ 64"
  then have "int (length vec) < 2 ^ 64"
    by (metis of_nat_less_iff of_nat_numeral of_nat_power)
  then have "int (length vec) mod 256 ^ 8 = int (length vec)"
    by simp
  then show ?thesis
    by (simp add: from_le_to_le sizeof_size_t_def)
qed

lemma legion_buffer_size_eq: "legion_buffer_size vec = sizeof_size_t + length vec * sizeof_int"
proof -
  have "fold (\<lambda>e result. result + sizeof_int) vec r = r + length vec * sizeof_int" for r
    by (induction vec arbitrary: r) auto
  then show ?thesis
    by (simp add: legion_buffer_size_def)
qed

lemma length_encode_ints: "length (encode_ints es) = length es * sizeof_int"
  by (induction es) (auto simp: encode_ints_def length_to_le)

lemma serialize_loop_eq:
  "target + length es * sizeof_int \<le> length buffer \<Longrightarrow>
   serialize_loop es (buffer, target) =
     Inr (take target buffer @ encode_ints es @ drop (target + length es * sizeof_int) buffer,
          target + length es * sizeof_int)"
proof (induction es arbitrary: buffer target)
  case Nil
  then show ?case by (simp add: encode_ints_def)
next
  case (Cons e es)
  let ?b = "take target buffer @ to_le sizeof_int (uint e) @ drop (target + sizeof_int) buffer"
  have st: "store buffer target (to_le sizeof_int (uint e)) = Inr ?b"
    using Cons.prems by (simp add: store_def length_to_le)
  have len: "length ?b = length buffer"
    using Cons.prems by (simp add: length_to_le)
  have le: "target + sizeof_int + length es * sizeof_int \<le> length ?b"
    unfolding len using Cons.prems by simp
  have "serialize_loop es (?b, target + sizeof_int) =
     Inr (take (target + sizeof_int) ?b @ encode_ints es @
       drop (target + sizeof_int + length es * sizeof_int) ?b,
       target + sizeof_int + length es * sizeof_int)"
    by (rule Cons.IH [OF le])
  moreover have "take (target + sizeof_int) ?b = take target buffer @ to_le sizeof_int (uint e)"
    using Cons.prems by (simp add: length_to_le)
  moreover have "drop (target + sizeof_int + length es * sizeof_int) ?b =
      drop (target + length (e # es) * sizeof_int) buffer"
    using Cons.prems by (simp add: length_to_le ac_simps)
  moreover have "encode_ints (e # es) = to_le sizeof_int (uint e) @ encode_ints es"
    by (simp add: encode_ints_def)
  ultimately show ?case
    by (simp add: st bind_res_def add.assoc)
qed

lemma deserialize_loop_eq:
  "deserialize_loop (length es) (pre @ encode_ints es @ post) (vec, length pre) =
     Inr (vec @ es, length pre + length es * sizeof_int)"
proof (induction es arbitrary: pre vec)
  case Nil
  show ?case by simp
next
  case (Cons e es)
  let ?enc = "to_le sizeof_int (uint e)"
  have enc: "encode_ints (e # es) = ?enc @ encode_ints es"
    by (simp add: encode_ints_def)
  have ld: "load (pre @ ?enc @ encode_ints es @ post) (length pre) sizeof_int = Inr ?enc"
    by (simp add: load_def length_to_le)
  have "deserialize_loop (length es) ((pre @ ?enc) @ encode_ints es @ post)
          (vec @ [e], length (pre @ ?enc)) =
        Inr ((vec @ [e]) @ es, length (pre @ ?enc) + length es * sizeof_int)"
    by (rule Cons.IH)
  then show ?case
    by (simp add: ld bind_res_def int32_le_roundtrip enc length_to_le add.assoc)
qed

lemma legion_serialize_eq:
  assumes "legion_buffer_size vec \<le> length buffer"
  shows "legion_serialize vec buffer =
     Inr (to_le sizeof_size_t (int (length vec)) @ encode_ints vec @
            drop (legion_buffer_size vec) buffer, legion_buffer_size vec)"
proof -
  let ?hd = "to_le sizeof_size_t (int (length vec))"
  let ?b = "?hd @ drop sizeof_size_t buffer"
  have st: "store buffer 0 ?hd = Inr ?b"
    using assms by (simp add: store_def length_to_le legion_buffer_size_eq)
  have "serialize_loop vec (?b, sizeof_size_t) =
     Inr (take sizeof_size_t ?b @ encode_ints vec @ drop (sizeof_size_t + length vec * sizeof_int) ?b,
          sizeof_size_t + length vec * sizeof_int)"
    using assms by (intro serialize_loop_eq) (simp add: length_to_le legion_buffer_size_eq)
  then show ?thesis
    using assms by (simp add: legion_serialize_def st bind_res_def length_to_le legion_buffer_size_eq add.commute)
qed

lemma legion_deserialize_eq:
  assumes "length vec < 2 ^ 64"
  shows "legion_deserialize (to_le sizeof_size_t (int (length vec)) @ encode_ints vec @ post) =
     Inr (vec, legion_buffer_size vec)"
proof -
  let ?hd = "to_le sizeof_size_t (int (length vec))"
  have ld: "load (?hd @ encode_ints vec @ post) 0 sizeof_size_t = Inr ?hd"
    by (simp add: load_def length_to_le)
  have n: "nat (from_le ?hd) = length vec"
    using assms by (rule size_le_roundtrip)
  have "deserialize_loop (length vec) (?hd @ encode_ints vec @ post) ([], length ?hd) =
     Inr ([] @ vec, length ?hd + length vec * sizeof_int)"
    by (rule deserialize_loop_eq)
  then show ?thesis
    by (simp add: legion_deserialize_def ld n bind_res_def length_to_le legion_buffer_size_eq)
qed

section \<open>The padding normalizer\<close>

lemma next_pow2_loop_eq: "0 < n \<Longrightarrow> next_pow2_loop n = 2 ^ pow2_exponent n"
proof (induction n rule: next_pow2_loop.induct)
  case (1 n)
  show ?case
  proof (cases "n \<noteq> (n AND (- n))")
    case True
    note st = lowbit_step [OF "1.prems" True]
    have "next_pow2_loop (n + (n AND (- n))) = 2 ^ pow2_exponent (n + (n AND (- n)))"
      using True st(1) "1.prems" by (intro "1.IH") auto
    then show ?thesis
      using True st(3) by (subst next_pow2_loop.simps) simp
  next
    case False
    obtain j where j: "n AND (- n) = 2 ^ j"
      using lowbit_pos [OF "1.prems"] by blast
    with False have "n = 2 ^ j" by simp
    then have "2 ^ pow2_exponent n = n"
      by (simp add: pow2_exponent_pow2)
    then show ?thesis
      using False by (subst next_pow2_loop.simps) simp
  qed
qed

text \<open>
  The values of \<open>num_total\<close> only grow and end below \<open>2 * num_inputs\<close>: with up to
  \<open>2 ^ 30\<close> inputs every one of them is an \<^verbatim>\<open>int\<close>.
\<close>

lemma next_pow2_loop_bound: "0 < n \<Longrightarrow> next_pow2_loop n < 2 * n"
proof -
  assume n: "0 < n"
  let ?k = "pow2_exponent n"
  have "(2 :: int) ^ ?k < 2 * n"
  proof (cases ?k)
    case 0
    with n show ?thesis by simp
  next
    case (Suc j)
    have "\<not> n \<le> 2 ^ j"
    proof
      assume "n \<le> 2 ^ j"
      then have "?k \<le> j" by (rule pow2_exponent_le)
      with Suc show False by simp
    qed
    with Suc show ?thesis by simp
  qed
  with n show ?thesis by (simp add: next_pow2_loop_eq)
qed

section \<open>The comparator\<close>

lemma sint_std_min: "sint (std_min a b) = min (sint a) (sint b)"
  by (auto simp: std_min_def word_sless_alt min_def)

lemma sint_std_max: "sint (std_max a b) = max (sint a) (sint b)"
  by (auto simp: std_max_def word_sless_alt max_def)

lemma fold_push_back:
  "fold (\<lambda>i nums. nums @ [v]) [a..<b] nums = nums @ replicate (b - a) v"
proof (induction b)
  case 0
  show ?case by simp
next
  case (Suc b)
  show ?case
  proof (cases "a \<le> b")
    case True
    then have "Suc b - a = Suc (b - a)" by simp
    then show ?thesis
      using True Suc by (simp add: replicate_append_same)
  next
    case False
    then show ?thesis by simp
  qed
qed

section \<open>The input loop\<close>

lemma digits_value_no_digit:
  "(case cs of [] \<Rightarrow> True | d # ds \<Rightarrow> \<not> isdigit d) \<Longrightarrow> digits_value acc cs = acc"
  by (cases cs) simp_all

lemma atoi_no_number:
  assumes "no_number s"
  shows "atoi s = Inr 0"
proof (cases "dropWhile isspace s")
  case Nil
  show ?thesis
    unfolding atoi_def Nil by simp
next
  case (Cons c cs)
  have z: "to_int32 0 = Inr 0"
    by (simp add: to_int32_def)
  show ?thesis
  proof (cases "c = CHR ''-'' \<or> c = CHR ''+''")
    case True
    have "case cs of [] \<Rightarrow> True | d # ds \<Rightarrow> \<not> isdigit d"
      using assms True unfolding no_number_def Cons by simp
    then have "digits_value 0 cs = 0"
      by (rule digits_value_no_digit)
    then show ?thesis
      unfolding atoi_def Cons using True z by auto
  next
    case False
    have "\<not> isdigit c"
      using assms False unfolding no_number_def Cons by simp
    then have "digits_value 0 (c # cs) = 0"
      by simp
    then show ?thesis
      unfolding atoi_def Cons using False z by simp
  qed
qed

lemma handle_inputs_scan_state:
  "handle_inputs argv i s =
     bind_res (atoi_all (scan (drop i argv))) (\<lambda>vs. Inr (fst s @ vs, snd s + length vs))"
proof (induction argv i s rule: handle_inputs.induct)
  case (1 argv i nums n)
  show ?case
  proof (cases "i < length argv")
    case False
    then show ?thesis
      by (subst handle_inputs.simps) (simp add: bind_res_def)
  next
    case True
    then have dr: "drop i argv = argv ! i # drop (Suc i) argv"
      by (simp add: Cons_nth_drop_Suc)
    show ?thesis
    proof (cases "first_char (argv ! i) = CHR ''-''")
      case flag: True
      have "handle_inputs argv i (nums, n) = handle_inputs argv (i + 1 + 1) (nums, n)"
        using True flag by (subst handle_inputs.simps) simp
      also have "\<dots> = bind_res (atoi_all (scan (drop (i + 1 + 1) argv)))
          (\<lambda>vs. Inr (fst (nums, n) @ vs, snd (nums, n) + length vs))"
        using True flag by (rule "1.IH"(1))
      finally show ?thesis
        using flag by (simp add: dr is_flag_def)
    next
      case noflag: False
      show ?thesis
      proof (cases "atoi (argv ! i)")
        case (Inl e)
        then show ?thesis
          using True noflag
          by (subst handle_inputs.simps) (simp add: dr is_flag_def bind_res_def)
      next
        case (Inr v)
        have "handle_inputs argv i (nums, n) = handle_inputs argv (i + 1) (nums @ [v], n + 1)"
          using True noflag Inr by (subst handle_inputs.simps) simp
        also have "\<dots> = bind_res (atoi_all (scan (drop (i + 1) argv)))
            (\<lambda>vs. Inr (fst (nums @ [v], n + 1) @ vs, snd (nums @ [v], n + 1) + length vs))"
          using True noflag Inr by (rule "1.IH"(2))
        finally show ?thesis
          using noflag Inr
          by (simp add: dr is_flag_def bind_res_def split: sum.splits)
      qed
    qed
  qed
qed

lemma handle_inputs_scan:
  "handle_inputs argv i (nums, n) =
     bind_res (atoi_all (scan (drop i argv))) (\<lambda>vs. Inr (nums @ vs, n + length vs))"
  using handle_inputs_scan_state [of argv i "(nums, n)"] by simp

lemma flags_before_Suc:
  "p < length args \<Longrightarrow>
   flags_before args (Suc p) = (if is_flag (args ! p) then Suc (flags_before args p) else 0)"
  by (simp add: flags_before_def take_Suc_conv_app_nth)

lemma scan_positions:
  "even (flags_before args p) \<Longrightarrow> p \<le> length args \<Longrightarrow>
   scan (drop p args) = map (\<lambda>i. args ! i) (filter (taken args) [p..<length args])"
proof (induction "length args - p" arbitrary: p rule: less_induct)
  case less
  show ?case
  proof (cases "p < length args")
    case False
    with less.prems show ?thesis by simp
  next
    case True
    then have dr: "drop p args = args ! p # drop (Suc p) args"
      by (simp add: Cons_nth_drop_Suc)
    have up: "[p..<length args] = p # [Suc p..<length args]"
      using True by (simp add: upt_conv_Cons)
    show ?thesis
    proof (cases "is_flag (args ! p)")
      case noflag: False
      have "even (flags_before args (Suc p))"
        using True noflag by (simp add: flags_before_Suc)
      then have "scan (drop (Suc p) args) =
          map (\<lambda>i. args ! i) (filter (taken args) [Suc p..<length args])"
        using True by (intro less.hyps) auto
      then show ?thesis
        using noflag less.prems(1) by (simp add: dr up taken_def)
    next
      case flag: True
      have np: "\<not> taken args p"
        using flag by (simp add: taken_def)
      show ?thesis
      proof (cases "Suc p < length args")
        case False
        with True have "drop (Suc p) args = []" "[Suc p..<length args] = []"
          by auto
        then show ?thesis
          using flag np by (simp add: dr up)
      next
        case next_in: True
        have odd1: "odd (flags_before args (Suc p))"
          using \<open>p < length args\<close> flag less.prems(1) by (simp add: flags_before_Suc)
        then have ns: "\<not> taken args (Suc p)"
          by (simp add: taken_def)
        have "even (flags_before args (Suc (Suc p)))"
          using next_in odd1 by (simp add: flags_before_Suc)
        then have "scan (drop (Suc (Suc p)) args) =
            map (\<lambda>i. args ! i) (filter (taken args) [Suc (Suc p)..<length args])"
          using next_in by (intro less.hyps) auto
        moreover have "drop (Suc p) args = args ! Suc p # drop (Suc (Suc p)) args"
          using next_in by (simp add: Cons_nth_drop_Suc)
        moreover have "[Suc p..<length args] = Suc p # [Suc (Suc p)..<length args]"
          using next_in by (simp add: upt_conv_Cons)
        ultimately show ?thesis
          using flag np ns by (simp add: dr up)
      qed
    qed
  qed
qed

lemma scan_input_tokens: "scan args = input_tokens args"
  using scan_positions [of args 0] by (simp add: input_tokens_def flags_before_def)

section \<open>The loops of the merge task\<close>

lemma bind_res_Inr [simp]: "bind_res (Inr x) f = f x"
  by (simp add: bind_res_def)

lemma bind_res_Inl [simp]: "bind_res (Inl e) f = Inl e"
  by (simp add: bind_res_def)

lemma for_each_append_results:
  assumes "\<And>x rs. x \<in> set xs \<Longrightarrow> body x rs = Inr (rs @ F x)"
  shows "for_each xs body rs = Inr (rs @ concat (map F xs))"
  using assms by (induction xs arbitrary: rs) simp_all

lemma for_each_invariant:
  assumes "P 0 s"
    and "\<And>k s. k < length xs \<Longrightarrow> P k s \<Longrightarrow> \<exists>s'. body (xs ! k) s = Inr s' \<and> P (Suc k) s'"
  shows "\<exists>s'. for_each xs body s = Inr s' \<and> P (length xs) s'"
  using assms
proof (induction xs arbitrary: P s)
  case Nil
  then show ?case by simp
next
  case (Cons x xs)
  from Cons.prems(2) [of 0 s] Cons.prems(1)
  obtain s1 where s1: "body x s = Inr s1" "P (Suc 0) s1"
    by auto
  have "\<exists>s'. for_each xs body s1 = Inr s' \<and> P (Suc (length xs)) s'"
  proof (rule Cons.IH [where P = "\<lambda>k. P (Suc k)"])
    show "P (Suc 0) s1" by (rule s1(2))
    fix k s
    assume "k < length xs" "P (Suc k) s"
    then show "\<exists>s'. body (xs ! k) s = Inr s' \<and> P (Suc (Suc k)) s'"
      using Cons.prems(2) [of "Suc k" s] by simp
  qed
  then show ?case
    by (simp add: s1(1))
qed

lemma range_step_eq: "0 < g \<Longrightarrow> range_step a (a + c * g) g = map (\<lambda>b. a + b * g) [0..<c]"
proof (induction c arbitrary: a)
  case 0
  then show ?case by (subst range_step.simps) simp
next
  case (Suc c)
  have "range_step a (a + Suc c * g) g = a # range_step (a + g) (a + g + c * g) g"
    using Suc.prems by (subst range_step.simps) (simp add: add.assoc)
  also have "range_step (a + g) (a + g + c * g) g = map (\<lambda>b. a + g + b * g) [0..<c]"
    using Suc.prems by (rule Suc.IH)
  also have "a # map (\<lambda>b. a + g + b * g) [0..<c] = map (\<lambda>b. a + b * g) [0..<Suc c]"
    by (simp add: map_upt_Suc add.assoc del: upt_Suc)
  finally show ?case .
qed

lemma range_step_blocks: "0 < g \<Longrightarrow> range_step 0 (c * g) g = map (\<lambda>b. b * g) [0..<c]"
  using range_step_eq [of g 0 c] by simp

lemma launch_swap_eq:
  "p < length v1 \<Longrightarrow> q < length v2 \<Longrightarrow>
   launch_swap v1 p v2 q rs = Inr (rs @ [swapped (v1 ! p) (v2 ! q)])"
  by (simp add: launch_swap_def vec_at_def single_swap_task_def swapped_def)

lemma store_pair_eq:
  "p < length s \<Longrightarrow> q < length s \<Longrightarrow>
   store_pair s p q (swapped a b) = Inr (s[p := std_min a b, q := std_max a b])"
  by (simp add: store_pair_def vec_at_def vec_set_def swapped_def)

lemma block_bound: "b < c \<Longrightarrow> b * g + g \<le> c * (g :: nat)"
proof -
  assume "b < c"
  then have "Suc b * g \<le> c * g"
    by (intro mult_le_mono1) simp
  then show ?thesis by (simp add: add.commute)
qed

lemma nth_concat_blocks:
  "\<forall>x \<in> set xss. length x = h \<Longrightarrow> b < length xss \<Longrightarrow> i < h \<Longrightarrow>
   concat xss ! (b * h + i) = xss ! b ! i"
proof (induction xss arbitrary: b)
  case Nil
  then show ?case by simp
next
  case (Cons x xss)
  show ?case
  proof (cases b)
    case 0
    with Cons.prems show ?thesis by (simp add: nth_append)
  next
    case (Suc b')
    with Cons.prems have "concat xss ! (b' * h + i) = xss ! b' ! i"
      by (intro Cons.IH) auto
    with Cons.prems Suc show ?thesis
      by (simp add: nth_append add.assoc)
  qed
qed

lemma length_concat_blocks:
  "\<forall>x \<in> set xss. length x = h \<Longrightarrow> length (concat xss) = length xss * h"
  by (induction xss) auto

subsection \<open>The cross phase\<close>

lemma crosswork_launch_eq:
  assumes "length vec1 = m" and "length vec2 = m"
  shows "crosswork_launch vec1 vec2 m =
           Inr (map (\<lambda>i. swapped (vec1 ! i) (vec2 ! (m - i - 1))) [0..<m])"
proof -
  have "for_each [0..<m] (\<lambda>i results. launch_swap vec1 i vec2 (m - i - 1) results) [] =
      Inr ([] @ concat (map (\<lambda>i. [swapped (vec1 ! i) (vec2 ! (m - i - 1))]) [0..<m]))"
    using assms by (intro for_each_append_results launch_swap_eq) auto
  also have "concat (map (\<lambda>i. [swapped (vec1 ! i) (vec2 ! (m - i - 1))]) [0..<m]) =
      map (\<lambda>i. swapped (vec1 ! i) (vec2 ! (m - i - 1))) [0..<m]"
    by (induction m) simp_all
  finally show ?thesis
    by (simp add: crosswork_launch_def)
qed

lemma crosswork_collect_eq:
  assumes "length vec1 = m" and "length vec2 = m" and "length s = m * 2"
  shows "crosswork_collect (map (\<lambda>i. swapped (vec1 ! i) (vec2 ! (m - i - 1))) [0..<m]) m (m * 2) s =
           Inr (cross_buffer vec1 vec2)"
proof -
  let ?results = "map (\<lambda>i. swapped (vec1 ! i) (vec2 ! (m - i - 1))) [0..<m]"
  let ?mn = "\<lambda>i. std_min (vec1 ! i) (vec2 ! (m - i - 1))"
  let ?mx = "\<lambda>i. std_max (vec1 ! i) (vec2 ! (m - i - 1))"
  let ?body = "\<lambda>i sorted_v. bind_res (vec_at ?results i) (store_pair sorted_v i (m * 2 - i - 1))"
  let ?P = "\<lambda>k s'. length s' = m * 2 \<and> (\<forall>i<k. s' ! i = ?mn i \<and> s' ! (m * 2 - i - 1) = ?mx i)"
  have "\<exists>s'. for_each [0..<m] ?body s = Inr s' \<and> ?P (length [0..<m]) s'"
  proof (rule for_each_invariant)
    show "?P 0 s" using assms(3) by simp
  next
    fix k s'
    assume k: "k < length [0..<m]" and P: "?P k s'"
    then have km: "k < m" by simp
    have body: "?body ([0..<m] ! k) s' = Inr (s'[k := ?mn k, m * 2 - k - 1 := ?mx k])"
      using km P by (simp add: vec_at_def store_pair_eq)
    have "?P (Suc k) (s'[k := ?mn k, m * 2 - k - 1 := ?mx k])"
    proof (intro conjI allI impI)
      show "length (s'[k := ?mn k, m * 2 - k - 1 := ?mx k]) = m * 2"
        using P by simp
    next
      fix i assume i: "i < Suc k"
      show "s'[k := ?mn k, m * 2 - k - 1 := ?mx k] ! i = ?mn i"
      proof (cases "i = k")
        case True
        with km P show ?thesis by (simp add: nth_list_update)
      next
        case False
        with i km P show ?thesis by (simp add: nth_list_update)
      qed
      show "s'[k := ?mn k, m * 2 - k - 1 := ?mx k] ! (m * 2 - i - 1) = ?mx i"
      proof (cases "i = k")
        case True
        with km P show ?thesis by (simp add: nth_list_update)
      next
        case False
        with i km have "m * 2 - i - 1 \<noteq> k" "m * 2 - i - 1 \<noteq> m * 2 - k - 1" "i < k"
          by auto
        with P show ?thesis by (simp add: nth_list_update)
      qed
    qed
    with body show "\<exists>s''. ?body ([0..<m] ! k) s' = Inr s'' \<and> ?P (Suc k) s''"
      by blast
  qed
  then obtain s' where s': "for_each [0..<m] ?body s = Inr s'" "length s' = m * 2"
    "\<forall>i<m. s' ! i = ?mn i \<and> s' ! (m * 2 - i - 1) = ?mx i"
    by auto
  have "s' = cross_buffer vec1 vec2"
  proof (rule nth_equalityI)
    show "length s' = length (cross_buffer vec1 vec2)"
      using s'(2) assms(1) by (simp add: cross_buffer_def)
  next
    fix x assume "x < length s'"
    then have x: "x < m * 2" using s'(2) by simp
    show "s' ! x = cross_buffer vec1 vec2 ! x"
    proof (cases "x < m")
      case True
      with s'(3) assms(1) show ?thesis
        by (simp add: cross_buffer_def nth_append)
    next
      case False
      define i where "i = m * 2 - x - 1"
      have i: "i < m" "x = m * 2 - i - 1" "m - i - 1 = x - m" "i = m - (x - m) - 1"
        using False x by (auto simp: i_def)
      have "s' ! x = ?mx i"
        using s'(3) i(1,2) by simp
      also have "\<dots> = std_max (vec1 ! (m - (x - m) - 1)) (vec2 ! (x - m))"
        using i(3,4) by simp
      also have "\<dots> = map (\<lambda>j. std_max (vec1 ! (m - j - 1)) (vec2 ! j)) [0..<m] ! (x - m)"
        using False x by (subst nth_map) simp_all
      also have "\<dots> = cross_buffer vec1 vec2 ! x"
        using False x assms(1) by (simp add: cross_buffer_def nth_append)
      finally show ?thesis .
    qed
  qed
  with s'(1) show ?thesis
    by (simp add: crosswork_collect_def)
qed

lemma crosswork_eq:
  assumes "length vec1 = length vec2"
  shows "crosswork vec1 vec2 = Inr (cross_buffer vec1 vec2)"
proof -
  let ?m = "length vec1"
  let ?results = "map (\<lambda>i. swapped (vec1 ! i) (vec2 ! (?m - i - 1))) [0..<?m]"
  have l: "crosswork_launch vec1 vec2 ?m = Inr ?results"
    using assms by (intro crosswork_launch_eq) simp_all
  have c: "crosswork_collect ?results ?m (?m * 2) (replicate (?m * 2) 0) =
      Inr (cross_buffer vec1 vec2)"
    using assms by (intro crosswork_collect_eq) simp_all
  show ?thesis
    unfolding crosswork_def Let_def l bind_res_Inr c ..
qed

subsection \<open>One round of half-cleaners\<close>

lemma length_half_clean_block: "length (half_clean_block h xs lo) = 2 * h"
  by (simp add: half_clean_block_def)

lemma length_half_clean_all: "length (half_clean_all h c xs) = c * (2 * h)"
  unfolding half_clean_all_def
  by (subst length_concat_blocks [where h = "2 * h"]) (auto simp: length_half_clean_block)

lemma stage_launch_eq:
  assumes "length xs = c * (2 * h)" and "0 < h"
  shows "stage_launch xs (c * (2 * h)) (2 * h) = Inr (stage_results h c xs)"
proof -
  let ?g = "2 * h"
  let ?F = "\<lambda>lo. map (\<lambda>i. swapped (xs ! (lo + i)) (xs ! (lo + i + h))) [0..<h]"
  let ?inner = "\<lambda>lo results. for_each [0..<h]
      (\<lambda>i results. launch_swap xs (lo + i) xs (lo + i + h) results) results"
  have inner: "?inner lo rs = Inr (rs @ ?F lo)" if "lo + ?g \<le> length xs" for lo rs
  proof -
    have "?inner lo rs = Inr (rs @ concat (map (\<lambda>i. [swapped (xs ! (lo + i)) (xs ! (lo + i + h))]) [0..<h]))"
      using that by (intro for_each_append_results launch_swap_eq) auto
    also have "concat (map (\<lambda>i. [swapped (xs ! (lo + i)) (xs ! (lo + i + h))]) [0..<h]) = ?F lo"
      by (simp add: concat_map_singleton)
    finally show ?thesis .
  qed
  have rs: "range_step 0 (c * ?g) ?g = map (\<lambda>b. b * ?g) [0..<c]"
    using assms(2) by (intro range_step_blocks) simp
  have "for_each (map (\<lambda>b. b * ?g) [0..<c]) ?inner [] =
      Inr ([] @ concat (map ?F (map (\<lambda>b. b * ?g) [0..<c])))"
  proof (rule for_each_append_results)
    fix lo rs
    assume "lo \<in> set (map (\<lambda>b. b * ?g) [0..<c])"
    then obtain b where b: "b < c" "lo = b * ?g" by auto
    then have "lo + ?g \<le> length xs"
      using block_bound [of b c ?g] assms(1) by simp
    then show "?inner lo rs = Inr (rs @ ?F lo)" by (rule inner)
  qed
  then show ?thesis
    unfolding stage_launch_def Let_def rs
    by (simp add: stage_results_def comp_def)
qed

lemma stage_results_nth:
  assumes "b < c" and "i < h"
  shows "stage_results h c xs ! (b * h + i) =
           swapped (xs ! (b * (2 * h) + i)) (xs ! (b * (2 * h) + i + h))"
  unfolding stage_results_def
  using assms by (subst nth_concat_blocks) auto

lemma length_stage_results: "length (stage_results h c xs) = c * h"
  unfolding stage_results_def
  by (subst length_concat_blocks [where h = h]) auto

text \<open>The inner loop of the second nest rewrites one block of the buffer.\<close>

lemma collect_block:
  assumes "lo + 2 * h \<le> length s"
    and "j0 + h \<le> length results"
    and "\<forall>i<h. results ! (j0 + i) = swapped (a i) (b i)"
  shows "for_each [0..<h]
           (\<lambda>i (sorted_v, j).
              bind_res (vec_at results j) (\<lambda>res.
              bind_res (store_pair sorted_v (lo + i) (lo + i + h) res) (\<lambda>sorted_v'.
              Inr (sorted_v', j + 1))))
           (s, j0) =
         Inr (take lo s @ map (\<lambda>i. std_min (a i) (b i)) [0..<h] @
                map (\<lambda>i. std_max (a i) (b i)) [0..<h] @ drop (lo + 2 * h) s, j0 + h)"
proof -
  let ?mn = "\<lambda>i. std_min (a i) (b i)"
  let ?mx = "\<lambda>i. std_max (a i) (b i)"
  let ?body = "\<lambda>i (sorted_v, j).
              bind_res (vec_at results j) (\<lambda>res.
              bind_res (store_pair sorted_v (lo + i) (lo + i + h) res) (\<lambda>sorted_v'.
              Inr (sorted_v', j + 1)))"
  let ?P = "\<lambda>k st. snd st = j0 + k \<and> length (fst st) = length s \<and>
      (\<forall>i<k. fst st ! (lo + i) = ?mn i \<and> fst st ! (lo + i + h) = ?mx i) \<and>
      (\<forall>x. x < lo \<or> lo + 2 * h \<le> x \<longrightarrow> fst st ! x = s ! x)"
  have "\<exists>st. for_each [0..<h] ?body (s, j0) = Inr st \<and> ?P (length [0..<h]) st"
  proof (rule for_each_invariant)
    show "?P 0 (s, j0)" by simp
  next
    fix k st
    assume k: "k < length [0..<h]" and P: "?P k st"
    obtain s' j where st: "st = (s', j)" by (cases st)
    from k have kh: "k < h" by simp
    from P st have j: "j = j0 + k" and len: "length s' = length s" by simp_all
    let ?s'' = "s'[lo + k := ?mn k, lo + k + h := ?mx k]"
    have body: "?body ([0..<h] ! k) st = Inr (?s'', j + 1)"
      using kh assms(1,2,3) len
      by (simp add: st j vec_at_def store_pair_eq)
    have "?P (Suc k) (?s'', j + 1)"
    proof (intro conjI allI impI)
      show "snd (?s'', j + 1) = j0 + Suc k" using j by simp
      show "length (fst (?s'', j + 1)) = length s" using len by simp
    next
      fix i assume i: "i < Suc k"
      show "fst (?s'', j + 1) ! (lo + i) = ?mn i"
      proof (cases "i = k")
        case True
        with kh assms(1) len show ?thesis by (simp add: nth_list_update)
      next
        case False
        with i kh P st show ?thesis by (simp add: nth_list_update)
      qed
      show "fst (?s'', j + 1) ! (lo + i + h) = ?mx i"
      proof (cases "i = k")
        case True
        with kh assms(1) len show ?thesis by (simp add: nth_list_update)
      next
        case False
        with i kh P st show ?thesis by (simp add: nth_list_update)
      qed
    next
      fix x assume "x < lo \<or> lo + 2 * h \<le> x"
      with kh P st show "fst (?s'', j + 1) ! x = s ! x"
        by (auto simp: nth_list_update)
    qed
    with body show "\<exists>st'. ?body ([0..<h] ! k) st = Inr st' \<and> ?P (Suc k) st'"
      by blast
  qed
  then obtain s' j where res: "for_each [0..<h] ?body (s, j0) = Inr (s', j)"
    and j: "j = j0 + h" and len: "length s' = length s"
    and new: "\<forall>i<h. s' ! (lo + i) = ?mn i \<and> s' ! (lo + i + h) = ?mx i"
    and old: "\<forall>x. x < lo \<or> lo + 2 * h \<le> x \<longrightarrow> s' ! x = s ! x"
    by auto
  let ?t = "take lo s @ map ?mn [0..<h] @ map ?mx [0..<h] @ drop (lo + 2 * h) s"
  have "s' = ?t"
  proof (rule nth_equalityI)
    show "length s' = length ?t"
      using len assms(1) by simp
  next
    fix x assume "x < length s'"
    then have x: "x < length s" using len by simp
    consider "x < lo" | "lo \<le> x" "x < lo + h" | "lo + h \<le> x" "x < lo + 2 * h" | "lo + 2 * h \<le> x"
      by linarith
    then show "s' ! x = ?t ! x"
    proof cases
      case 1
      with old assms(1) show ?thesis by (simp add: nth_append)
    next
      case 2
      then have xl: "x - lo < h" by arith
      from 2 have "s' ! x = ?mn (x - lo)"
        using new [rule_format, of "x - lo"] by simp
      with 2 xl assms(1) show ?thesis by (simp add: nth_append)
    next
      case 3
      then have "s' ! x = ?mx (x - lo - h)"
        using new [rule_format, of "x - lo - h"] by (simp add: add.commute add.left_commute)
      moreover have "\<not> x < lo" "\<not> x - lo < h" "x - lo - h < h"
        using 3 by arith+
      then have "?t ! x = ?mx (x - lo - h)"
        using assms(1) by (simp add: nth_append)
      ultimately show ?thesis by simp
    next
      case 4
      then have "\<not> x < lo" "\<not> x - lo < h" "\<not> x - lo - h < h"
        "lo + 2 * h + (x - lo - h - h) = x"
        by arith+
      then have "?t ! x = s ! x"
        using x assms(1) by (simp add: nth_append)
      with 4 show ?thesis using old by simp
    qed
  qed
  with res j show ?thesis by simp
qed

lemma stage_collect_eq:
  assumes "length xs = c * (2 * h)" and "0 < h"
  shows "stage_collect (stage_results h c xs) (c * (2 * h)) (2 * h) xs =
           Inr (half_clean_all h c xs)"
proof -
  let ?g = "2 * h"
  let ?results = "stage_results h c xs"
  let ?inner = "\<lambda>lo (sorted_v, j). for_each [0..<h]
           (\<lambda>i (sorted_v, j).
              bind_res (vec_at ?results j) (\<lambda>res.
              bind_res (store_pair sorted_v (lo + i) (lo + i + h) res) (\<lambda>sorted_v'.
              Inr (sorted_v', j + 1))))
           (sorted_v, j)"
  let ?los = "map (\<lambda>b. b * ?g) [0..<c]"
  let ?P = "\<lambda>b st. st = (half_clean_all h b xs @ drop (b * ?g) xs, b * h)"
  have rs: "range_step 0 (c * ?g) ?g = ?los"
    using assms(2) by (intro range_step_blocks) simp
  have "\<exists>st. for_each ?los ?inner (xs, 0) = Inr st \<and> ?P (length ?los) st"
  proof (rule for_each_invariant)
    show "?P 0 (xs, 0)" by (simp add: half_clean_all_def)
  next
    fix b st
    assume "b < length ?los" and P: "?P b st"
    then have b: "b < c" by simp
    let ?s = "half_clean_all h b xs @ drop (b * ?g) xs"
    have bb: "b * ?g + ?g \<le> c * ?g"
      using b by (rule block_bound)
    have lo: "?los ! b = b * ?g"
      using b by simp
    have len: "length ?s = length xs"
      using bb assms(1) by (simp add: length_half_clean_all)
    have "?inner (b * ?g) (?s, b * h) =
        Inr (take (b * ?g) ?s @
             map (\<lambda>i. std_min (xs ! (b * ?g + i)) (xs ! (b * ?g + i + h))) [0..<h] @
             map (\<lambda>i. std_max (xs ! (b * ?g + i)) (xs ! (b * ?g + i + h))) [0..<h] @
             drop (b * ?g + 2 * h) ?s, b * h + h)"
      unfolding prod.case
    proof (rule collect_block)
      show "b * ?g + 2 * h \<le> length ?s"
        using bb len assms(1) by simp
      show "b * h + h \<le> length ?results"
        using block_bound [OF b, of h] by (simp add: length_stage_results)
      show "\<forall>i<h. ?results ! (b * h + i) = swapped (xs ! (b * ?g + i)) (xs ! (b * ?g + i + h))"
        using b by (simp add: stage_results_nth)
    qed
    moreover have "take (b * ?g) ?s = half_clean_all h b xs"
      by (simp add: length_half_clean_all)
    moreover have "drop (b * ?g + 2 * h) ?s = drop (Suc b * ?g) xs"
      by (simp add: length_half_clean_all add.commute)
    moreover have "half_clean_all h (Suc b) xs =
        half_clean_all h b xs @ half_clean_block h xs (b * ?g)"
      by (simp add: half_clean_all_def)
    ultimately have "?inner (b * ?g) (?s, b * h) =
        Inr (half_clean_all h (Suc b) xs @ drop (Suc b * ?g) xs, Suc b * h)"
      by (simp add: half_clean_block_def add.commute)
    then show "\<exists>st'. ?inner (?los ! b) st = Inr st' \<and> ?P (Suc b) st'"
      unfolding lo using P by simp
  qed
  then have "for_each ?los ?inner (xs, 0) = Inr (half_clean_all h c xs @ drop (c * ?g) xs, c * h)"
    by simp
  then show ?thesis
    unfolding stage_collect_def Let_def rs using assms(1) by simp
qed

section \<open>Correctness of the merge network\<close>

subsection \<open>Runs of a threshold through a half-cleaner\<close>

lemma in_run_and: "(in_run a b i \<and> in_run a b (i + h)) = in_run a (b - h) i"
  by (auto simp: in_run_def)

lemma in_run_or:
  "\<exists>a' b'. (\<forall>i<h. (in_run a b i \<or> in_run a b (i + h)) = in_run a' b' i) \<or>
           (\<forall>i<h. (in_run a b i \<or> in_run a b (i + h)) = (\<not> in_run a' b' i))"
proof -
  consider "b \<le> a" | "a < b" "b \<le> h" | "a < b" "h \<le> a" | "a < h" "h < b"
    by linarith
  then show ?thesis
  proof cases
    case 1
    then have "\<forall>i<h. (in_run a b i \<or> in_run a b (i + h)) = in_run 0 0 i"
      by (auto simp: in_run_def)
    then show ?thesis by blast
  next
    case 2
    then have "\<forall>i<h. (in_run a b i \<or> in_run a b (i + h)) = in_run a b i"
      by (auto simp: in_run_def)
    then show ?thesis by blast
  next
    case 3
    then have "\<forall>i<h. (in_run a b i \<or> in_run a b (i + h)) = in_run (a - h) (b - h) i"
      by (auto simp: in_run_def)
    then show ?thesis by blast
  next
    case 4
    then have "\<forall>i<h. (in_run a b i \<or> in_run a b (i + h)) = (\<not> in_run (b - h) a i)"
      by (auto simp: in_run_def)
    then show ?thesis by blast
  qed
qed

lemma in_run_both:
  "i < h \<Longrightarrow> in_run a b i \<Longrightarrow> in_run a b (i + h) \<Longrightarrow> j < h \<Longrightarrow>
   in_run a b j \<or> in_run a b (j + h)"
  by (auto simp: in_run_def)

lemma cyclic_run_cong:
  "(\<And>i. i < h \<Longrightarrow> p i = q i) \<Longrightarrow> cyclic_run h p = cyclic_run h q"
  by (simp add: cyclic_run_def)

lemma cyclic_run_half_clean:
  assumes "cyclic_run (2 * h) p"
  shows "cyclic_run h (\<lambda>i. p i \<and> p (i + h))"
    and "cyclic_run h (\<lambda>i. p i \<or> p (i + h))"
    and "(\<forall>i<h. \<not> (p i \<and> p (i + h))) \<or> (\<forall>i<h. p i \<or> p (i + h))"
proof -
  from assms obtain a b where
    ab: "(\<forall>i<2 * h. p i = in_run a b i) \<or> (\<forall>i<2 * h. p i = (\<not> in_run a b i))"
    unfolding cyclic_run_def by blast
  obtain a' b' where
    or: "(\<forall>i<h. (in_run a b i \<or> in_run a b (i + h)) = in_run a' b' i) \<or>
         (\<forall>i<h. (in_run a b i \<or> in_run a b (i + h)) = (\<not> in_run a' b' i))"
    using in_run_or [of h a b] by blast
  have both: "(\<forall>i<h. \<not> (in_run a b i \<and> in_run a b (i + h))) \<or>
      (\<forall>j<h. in_run a b j \<or> in_run a b (j + h))"
    using in_run_both [of _ h a b] by blast
  from ab show "cyclic_run h (\<lambda>i. p i \<and> p (i + h))"
  proof
    assume pos: "\<forall>i<2 * h. p i = in_run a b i"
    then have "\<forall>i<h. (p i \<and> p (i + h)) = in_run a (b - h) i"
      by (simp add: in_run_and [symmetric])
    then show ?thesis unfolding cyclic_run_def by blast
  next
    assume neg: "\<forall>i<2 * h. p i = (\<not> in_run a b i)"
    then have eq: "\<forall>i<h. (p i \<and> p (i + h)) = (\<not> (in_run a b i \<or> in_run a b (i + h)))"
      by simp
    from or show ?thesis
    proof
      assume "\<forall>i<h. (in_run a b i \<or> in_run a b (i + h)) = in_run a' b' i"
      with eq have "\<forall>i<h. (p i \<and> p (i + h)) = (\<not> in_run a' b' i)" by simp
      then show ?thesis unfolding cyclic_run_def by blast
    next
      assume "\<forall>i<h. (in_run a b i \<or> in_run a b (i + h)) = (\<not> in_run a' b' i)"
      with eq have "\<forall>i<h. (p i \<and> p (i + h)) = in_run a' b' i" by simp
      then show ?thesis unfolding cyclic_run_def by blast
    qed
  qed
  from ab show "cyclic_run h (\<lambda>i. p i \<or> p (i + h))"
  proof
    assume pos: "\<forall>i<2 * h. p i = in_run a b i"
    then have eq: "\<forall>i<h. (p i \<or> p (i + h)) = (in_run a b i \<or> in_run a b (i + h))"
      by simp
    from or show ?thesis
    proof
      assume "\<forall>i<h. (in_run a b i \<or> in_run a b (i + h)) = in_run a' b' i"
      with eq have "\<forall>i<h. (p i \<or> p (i + h)) = in_run a' b' i" by simp
      then show ?thesis unfolding cyclic_run_def by blast
    next
      assume "\<forall>i<h. (in_run a b i \<or> in_run a b (i + h)) = (\<not> in_run a' b' i)"
      with eq have "\<forall>i<h. (p i \<or> p (i + h)) = (\<not> in_run a' b' i)" by simp
      then show ?thesis unfolding cyclic_run_def by blast
    qed
  next
    assume neg: "\<forall>i<2 * h. p i = (\<not> in_run a b i)"
    then have "\<forall>i<h. (p i \<or> p (i + h)) = (\<not> in_run a (b - h) i)"
      by (simp add: in_run_and [symmetric])
    then show ?thesis unfolding cyclic_run_def by blast
  qed
  from ab show "(\<forall>i<h. \<not> (p i \<and> p (i + h))) \<or> (\<forall>i<h. p i \<or> p (i + h))"
  proof
    assume pos: "\<forall>i<2 * h. p i = in_run a b i"
    then have "\<forall>i<h. p i = in_run a b i \<and> p (i + h) = in_run a b (i + h)"
      by simp
    with both show ?thesis by metis
  next
    assume neg: "\<forall>i<2 * h. p i = (\<not> in_run a b i)"
    then have "\<forall>i<h. p i = (\<not> in_run a b i) \<and> p (i + h) = (\<not> in_run a b (i + h))"
      by simp
    with both show ?thesis by metis
  qed
qed

lemma half_clean_order:
  fixes v :: "nat \<Rightarrow> int"
  assumes "\<forall>t. cyclic_run (2 * h) (\<lambda>i. t \<le> v i)" and "i < h" and "j < h"
  shows "min (v i) (v (i + h)) \<le> max (v j) (v (j + h))"
proof -
  let ?t = "min (v i) (v (i + h))"
  have "cyclic_run (2 * h) (\<lambda>i. ?t \<le> v i)"
    using assms(1) by blast
  from cyclic_run_half_clean(3) [OF this]
  have "(\<forall>i<h. \<not> (?t \<le> v i \<and> ?t \<le> v (i + h))) \<or> (\<forall>i<h. ?t \<le> v i \<or> ?t \<le> v (i + h))" .
  moreover have "?t \<le> v i \<and> ?t \<le> v (i + h)"
    by simp
  ultimately have "?t \<le> v j \<or> ?t \<le> v (j + h)"
    using assms(2,3) by blast
  then show ?thesis
    by (simp add: le_max_iff_disj)
qed

lemma le_sint_std_min: "(t \<le> sint (std_min a b)) = (t \<le> sint a \<and> t \<le> sint b)"
  by (simp add: sint_std_min)

lemma le_sint_std_max: "(t \<le> sint (std_max a b)) = (t \<le> sint a \<or> t \<le> sint b)"
  by (simp add: sint_std_max le_max_iff_disj)

subsection \<open>The buffer after a round, slot by slot\<close>

lemma half_clean_all_nth:
  assumes "b < c" and "i < h"
  shows "half_clean_all h c xs ! (b * (2 * h) + i) =
           std_min (xs ! (b * (2 * h) + i)) (xs ! (b * (2 * h) + i + h))"
    and "half_clean_all h c xs ! (b * (2 * h) + h + i) =
           std_max (xs ! (b * (2 * h) + i)) (xs ! (b * (2 * h) + i + h))"
proof -
  let ?xss = "map (\<lambda>b. half_clean_block h xs (b * (2 * h))) [0..<c]"
  have len: "\<forall>x \<in> set ?xss. length x = 2 * h"
    by (auto simp: length_half_clean_block)
  have blk: "half_clean_all h c xs ! (b * (2 * h) + k) = half_clean_block h xs (b * (2 * h)) ! k"
    if "k < 2 * h" for k
    unfolding half_clean_all_def
    using assms(1) that by (subst nth_concat_blocks [OF len]) simp_all
  show "half_clean_all h c xs ! (b * (2 * h) + i) =
           std_min (xs ! (b * (2 * h) + i)) (xs ! (b * (2 * h) + i + h))"
    using assms(2) by (subst blk) (simp_all add: half_clean_block_def nth_append)
  have "half_clean_all h c xs ! (b * (2 * h) + (h + i)) =
      half_clean_block h xs (b * (2 * h)) ! (h + i)"
    using assms(2) by (intro blk) simp
  then show "half_clean_all h c xs ! (b * (2 * h) + h + i) =
           std_max (xs ! (b * (2 * h) + i)) (xs ! (b * (2 * h) + i + h))"
    using assms(2) by (simp add: half_clean_block_def nth_append add.assoc)
qed

lemma half_block_cases:
  fixes b' c :: nat
  assumes "b' < 2 * c"
  obtains b where "b < c" "b' = 2 * b" | b where "b < c" "b' = 2 * b + 1"
proof (cases "even b'")
  case True
  then obtain b where "b' = 2 * b" by (auto elim: evenE)
  with assms that(1) show ?thesis by simp
next
  case False
  then obtain b where "b' = 2 * b + 1" by (auto elim: oddE)
  with assms that(2) show ?thesis by simp
qed

lemma bitonic_blocks_half_clean:
  assumes "bitonic_blocks (2 * h) c xs"
  shows "bitonic_blocks h (2 * c) (half_clean_all h c xs)"
proof -
  let ?ys = "half_clean_all h c xs"
  let ?v = "\<lambda>b i. sint (xs ! (b * (2 * h) + i))"
  from assms have len: "length xs = c * (2 * h)"
    and cyc: "\<And>b t. b < c \<Longrightarrow> cyclic_run (2 * h) (\<lambda>i. t \<le> ?v b i)"
    and ord: "\<And>b b' i j. b < b' \<Longrightarrow> b' < c \<Longrightarrow> i < 2 * h \<Longrightarrow> j < 2 * h \<Longrightarrow> ?v b i \<le> ?v b' j"
    unfolding bitonic_blocks_def by auto
  have lo: "sint (?ys ! (2 * b * h + i)) = min (?v b i) (?v b (i + h))" if "b < c" "i < h" for b i
  proof -
    have e: "2 * b * h + i = b * (2 * h) + i" by simp
    show ?thesis
      unfolding e half_clean_all_nth(1) [OF that] by (simp add: sint_std_min add.assoc)
  qed
  have hi: "sint (?ys ! ((2 * b + 1) * h + i)) = max (?v b i) (?v b (i + h))" if "b < c" "i < h" for b i
  proof -
    have e: "(2 * b + 1) * h + i = b * (2 * h) + h + i" by (simp add: algebra_simps)
    show ?thesis
      unfolding e half_clean_all_nth(2) [OF that] by (simp add: sint_std_max add.assoc)
  qed
  have within: "min (?v b i) (?v b (i + h)) \<le> max (?v b j) (?v b (j + h))"
    if "b < c" "i < h" "j < h" for b i j
    using cyc [OF that(1)] that(2,3) by (intro half_clean_order) auto
  have across: "max (?v b i) (?v b (i + h)) \<le> min (?v b' j) (?v b' (j + h))"
    if "b < b'" "b' < c" "i < h" "j < h" for b b' i j
    using ord [OF that(1,2), of i j] ord [OF that(1,2), of "i + h" j]
      ord [OF that(1,2), of i "j + h"] ord [OF that(1,2), of "i + h" "j + h"] that(3,4)
    by (simp add: add.assoc)
  have "length ?ys = 2 * c * h"
    by (simp add: length_half_clean_all)
  moreover have "cyclic_run h (\<lambda>i. t \<le> sint (?ys ! (b' * h + i)))" if "b' < 2 * c" for b' t
    using that
  proof (cases rule: half_block_cases)
    case (1 b)
    have "sint (?ys ! (b' * h + i)) = min (?v b i) (?v b (i + h))" if "i < h" for i
      unfolding 1(2) using 1(1) that by (rule lo)
    then have "cyclic_run h (\<lambda>i. t \<le> sint (?ys ! (b' * h + i))) =
        cyclic_run h (\<lambda>i. t \<le> ?v b i \<and> t \<le> ?v b (i + h))"
      by (intro cyclic_run_cong) simp
    then show ?thesis
      using cyclic_run_half_clean(1) [OF cyc [OF 1(1), of t]] by simp
  next
    case (2 b)
    have "sint (?ys ! (b' * h + i)) = max (?v b i) (?v b (i + h))" if "i < h" for i
      unfolding 2(2) using 2(1) that by (rule hi)
    then have "cyclic_run h (\<lambda>i. t \<le> sint (?ys ! (b' * h + i))) =
        cyclic_run h (\<lambda>i. t \<le> ?v b i \<or> t \<le> ?v b (i + h))"
      by (intro cyclic_run_cong) (simp add: le_max_iff_disj)
    then show ?thesis
      using cyclic_run_half_clean(2) [OF cyc [OF 2(1), of t]] by simp
  qed
  moreover have "sint (?ys ! (b1 * h + i)) \<le> sint (?ys ! (b2 * h + j))"
    if "b1 < b2" "b2 < 2 * c" "i < h" "j < h" for b1 b2 i j
  proof -
    from that have "b1 < 2 * c" by simp
    then show ?thesis
    proof (cases rule: half_block_cases)
      case A: (1 a1)
      have l: "sint (?ys ! (b1 * h + i)) = min (?v a1 i) (?v a1 (i + h))"
        unfolding A(2) using A(1) that(3) by (rule lo)
      from \<open>b2 < 2 * c\<close> show ?thesis
      proof (cases rule: half_block_cases)
        case B: (1 a2)
        have r: "sint (?ys ! (b2 * h + j)) = min (?v a2 j) (?v a2 (j + h))"
          unfolding B(2) using B(1) that(4) by (rule lo)
        from A B that have "a1 < a2" by simp
        from across [OF this B(1) that(3,4)] show ?thesis
          unfolding l r by linarith
      next
        case B: (2 a2)
        have r: "sint (?ys ! (b2 * h + j)) = max (?v a2 j) (?v a2 (j + h))"
          unfolding B(2) using B(1) that(4) by (rule hi)
        from A B that have "a1 < a2 \<or> a1 = a2" by auto
        then show ?thesis
        proof
          assume "a1 < a2"
          from across [OF this B(1) that(3,4)] show ?thesis
            unfolding l r by linarith
        next
          assume "a1 = a2"
          with within [OF A(1) that(3,4)] show ?thesis
            unfolding l r by simp
        qed
      qed
    next
      case A: (2 a1)
      have l: "sint (?ys ! (b1 * h + i)) = max (?v a1 i) (?v a1 (i + h))"
        unfolding A(2) using A(1) that(3) by (rule hi)
      from \<open>b2 < 2 * c\<close> show ?thesis
      proof (cases rule: half_block_cases)
        case B: (1 a2)
        have r: "sint (?ys ! (b2 * h + j)) = min (?v a2 j) (?v a2 (j + h))"
          unfolding B(2) using B(1) that(4) by (rule lo)
        from A B that have "a1 < a2" by simp
        from across [OF this B(1) that(3,4)] show ?thesis
          unfolding l r by linarith
      next
        case B: (2 a2)
        have r: "sint (?ys ! (b2 * h + j)) = max (?v a2 j) (?v a2 (j + h))"
          unfolding B(2) using B(1) that(4) by (rule hi)
        from A B that have "a1 < a2" by simp
        from across [OF this B(1) that(3,4)] show ?thesis
          unfolding l r by linarith
      qed
    qed
  qed
  ultimately show ?thesis
    unfolding bitonic_blocks_def by (intro conjI allI impI) simp_all
qed

lemma bitonic_blocks_sorted:
  assumes "bitonic_blocks 1 c xs"
  shows "sorted (map sint xs)"
proof -
  from assms have len: "length xs = c"
    unfolding bitonic_blocks_def by simp
  from assms have "\<forall>b b' i j. b < b' \<longrightarrow> b' < c \<longrightarrow> i < 1 \<longrightarrow> j < 1 \<longrightarrow>
         sint (xs ! (b * 1 + i)) \<le> sint (xs ! (b' * 1 + j))"
    unfolding bitonic_blocks_def by blast
  then have ord: "sint (xs ! b) \<le> sint (xs ! b')" if "b < b'" "b' < c" for b b'
    using that by (metis add.right_neutral less_one mult.right_neutral)
  show ?thesis
    unfolding sorted_iff_nth_mono_less using len ord by simp
qed

subsection \<open>The cross phase leaves two blocks\<close>

lemma sorted_threshold:
  assumes "sorted (map sint xs)"
  shows "\<exists>a. \<forall>i<length xs. (t \<le> sint (xs ! i)) = (a \<le> i)"
proof (cases "\<exists>i<length xs. t \<le> sint (xs ! i)")
  case False
  then have "\<forall>i<length xs. (t \<le> sint (xs ! i)) = (length xs \<le> i)"
    by auto
  then show ?thesis ..
next
  case True
  define a where "a = (LEAST i. i < length xs \<and> t \<le> sint (xs ! i))"
  from True have a: "a < length xs" "t \<le> sint (xs ! a)"
    unfolding a_def by (metis (mono_tags, lifting) LeastI_ex)+
  have least: "a \<le> i" if "i < length xs" "t \<le> sint (xs ! i)" for i
    unfolding a_def using that by (intro Least_le) simp
  have "(t \<le> sint (xs ! i)) = (a \<le> i)" if i: "i < length xs" for i
  proof
    assume "t \<le> sint (xs ! i)"
    with i show "a \<le> i" by (rule least)
  next
    assume "a \<le> i"
    then have "map sint xs ! a \<le> map sint xs ! i"
      using assms i by (intro sorted_nth_mono) simp_all
    with a i \<open>a \<le> i\<close> show "t \<le> sint (xs ! i)" by simp
  qed
  then show ?thesis by blast
qed

lemma cross_buffer_nth:
  assumes "length vec1 = m"
  shows "i < m \<Longrightarrow> cross_buffer vec1 vec2 ! i = std_min (vec1 ! i) (vec2 ! (m - i - 1))"
    and "j < m \<Longrightarrow> cross_buffer vec1 vec2 ! (m + j) = std_max (vec1 ! (m - j - 1)) (vec2 ! j)"
    and "length (cross_buffer vec1 vec2) = 2 * m"
  using assms by (simp_all add: cross_buffer_def nth_append)

lemma cross_order:
  assumes "sorted (map sint vec1)" and "sorted (map sint vec2)"
    and "length vec1 = m" and "length vec2 = m" and "i < m" and "j < m"
  shows "min (sint (vec1 ! i)) (sint (vec2 ! (m - i - 1))) \<le>
         max (sint (vec1 ! (m - j - 1))) (sint (vec2 ! j))"
proof (cases "i \<le> m - j - 1")
  case True
  then have "map sint vec1 ! i \<le> map sint vec1 ! (m - j - 1)"
    using assms by (intro sorted_nth_mono) simp_all
  then have "sint (vec1 ! i) \<le> sint (vec1 ! (m - j - 1))"
    using assms by simp
  then show ?thesis by (simp add: min_le_iff_disj le_max_iff_disj)
next
  case False
  then have "m - i - 1 \<le> j" by simp
  then have "map sint vec2 ! (m - i - 1) \<le> map sint vec2 ! j"
    using assms by (intro sorted_nth_mono) simp_all
  then have "sint (vec2 ! (m - i - 1)) \<le> sint (vec2 ! j)"
    using assms by simp
  then show ?thesis by (simp add: min_le_iff_disj le_max_iff_disj)
qed

lemma bitonic_blocks_cross:
  assumes "sorted (map sint vec1)" and "sorted (map sint vec2)"
    and "length vec1 = m" and "length vec2 = m"
  shows "bitonic_blocks m 2 (cross_buffer vec1 vec2)"
proof -
  let ?cb = "cross_buffer vec1 vec2"
  note nth = cross_buffer_nth [OF assms(3)]
  have run: "cyclic_run m (\<lambda>i. t \<le> sint (?cb ! (b * m + i)))" if "b < 2" for b t
  proof -
    obtain a1 where a1: "\<forall>i<m. (t \<le> sint (vec1 ! i)) = (a1 \<le> i)"
      using sorted_threshold [OF assms(1), of t] assms(3) by auto
    obtain a2 where a2: "\<forall>i<m. (t \<le> sint (vec2 ! i)) = (a2 \<le> i)"
      using sorted_threshold [OF assms(2), of t] assms(4) by auto
    from that consider "b = 0" | "b = 1" by linarith
    then show ?thesis
    proof cases
      case 1
      have "(t \<le> sint (?cb ! (b * m + i))) = in_run a1 (m - a2) i" if "i < m" for i
      proof -
        have "m - i - 1 < m" using that by simp
        with a1 a2 that show ?thesis
          unfolding 1 by (simp add: nth(1) le_sint_std_min in_run_def) arith
      qed
      then show ?thesis unfolding cyclic_run_def by blast
    next
      case 2
      have "(t \<le> sint (?cb ! (b * m + j))) = (\<not> in_run (m - a1) a2 j)" if "j < m" for j
      proof -
        have "m - j - 1 < m" using that by simp
        with a1 a2 that show ?thesis
          unfolding 2 by (simp add: nth(2) le_sint_std_max in_run_def) arith
      qed
      then show ?thesis unfolding cyclic_run_def by blast
    qed
  qed
  have ord: "sint (?cb ! (b * m + i)) \<le> sint (?cb ! (b' * m + j))"
    if "b < b'" "b' < 2" "i < m" "j < m" for b b' i j
  proof -
    from that have b: "b = 0" "b' = 1" by simp_all
    show ?thesis
      unfolding b using that(3,4) cross_order [OF assms that(3,4)]
      by (simp add: nth sint_std_min sint_std_max)
  qed
  show ?thesis
    unfolding bitonic_blocks_def using run ord by (simp add: nth(3))
qed

subsection \<open>The rounds keep the elements\<close>

lemma std_min_max_cases:
  "(std_min a b = a \<and> std_max a b = b) \<or> (std_min a b = b \<and> std_max a b = a)"
proof (cases "sint a = sint b")
  case True
  then have "a = b" by (rule signed_word_eqI)
  then show ?thesis by (simp add: std_min_def std_max_def)
next
  case False
  then show ?thesis by (auto simp: std_min_def std_max_def word_sless_alt)
qed

lemma mset_min_max:
  "length as = length bs \<Longrightarrow>
   mset (map2 std_min as bs) + mset (map2 std_max as bs) = mset as + mset bs"
proof (induction as bs rule: list_induct2)
  case Nil
  show ?case by simp
next
  case (Cons a as b bs)
  let ?M = "mset (map2 std_min as bs) + mset (map2 std_max as bs)"
  have e: "{#std_min a b#} + {#std_max a b#} = {#a#} + {#b#}"
    using std_min_max_cases [of a b] by auto
  have "mset (map2 std_min (a # as) (b # bs)) + mset (map2 std_max (a # as) (b # bs)) =
      ({#std_min a b#} + {#std_max a b#}) + ?M"
    by simp
  also have "\<dots> = ({#a#} + {#b#}) + (mset as + mset bs)"
    unfolding e Cons.IH ..
  also have "\<dots> = mset (a # as) + mset (b # bs)"
    by simp
  finally show ?case .
qed

lemma half_clean_block_zip:
  assumes "lo + 2 * h \<le> length xs"
  shows "half_clean_block h xs lo =
           map2 std_min (take h (drop lo xs)) (take h (drop (lo + h) xs)) @
           map2 std_max (take h (drop lo xs)) (take h (drop (lo + h) xs))"
proof -
  have "map (\<lambda>i. f (xs ! (lo + i)) (xs ! (lo + i + h))) [0..<h] =
      map2 f (take h (drop lo xs)) (take h (drop (lo + h) xs))" for f :: "int32 \<Rightarrow> int32 \<Rightarrow> int32"
    using assms by (intro nth_equalityI) (simp_all add: add.commute add.left_commute)
  then show ?thesis
    by (simp add: half_clean_block_def)
qed

lemma mset_half_clean_block:
  assumes "lo + 2 * h \<le> length xs"
  shows "mset (half_clean_block h xs lo) = mset (take (2 * h) (drop lo xs))"
proof -
  let ?as = "take h (drop lo xs)" and ?bs = "take h (drop (lo + h) xs)"
  have "take (h + h) (drop lo xs) = ?as @ take h (drop h (drop lo xs))"
    by (rule take_add)
  then have split: "take (2 * h) (drop lo xs) = ?as @ ?bs"
    by (simp add: mult_2 add.commute)
  have "length ?as = length ?bs"
    using assms by simp
  then have "mset (map2 std_min ?as ?bs) + mset (map2 std_max ?as ?bs) = mset ?as + mset ?bs"
    by (rule mset_min_max)
  then show ?thesis
    unfolding half_clean_block_zip [OF assms] split by simp
qed

lemma mset_half_clean_all:
  "c * (2 * h) \<le> length xs \<Longrightarrow> mset (half_clean_all h c xs) = mset (take (c * (2 * h)) xs)"
proof (induction c)
  case 0
  show ?case by (simp add: half_clean_all_def)
next
  case (Suc c)
  then have le: "c * (2 * h) + 2 * h \<le> length xs"
    by simp
  have "half_clean_all h (Suc c) xs = half_clean_all h c xs @ half_clean_block h xs (c * (2 * h))"
    by (simp add: half_clean_all_def)
  moreover have "take (c * (2 * h) + 2 * h) xs =
      take (c * (2 * h)) xs @ take (2 * h) (drop (c * (2 * h)) xs)"
    by (rule take_add)
  then have "take (Suc c * (2 * h)) xs =
      take (c * (2 * h)) xs @ take (2 * h) (drop (c * (2 * h)) xs)"
    by (simp add: add.commute)
  moreover have "mset (half_clean_all h c xs) = mset (take (c * (2 * h)) xs)"
    using le by (intro Suc.IH) simp
  ultimately show ?case
    using le by (simp only: mset_append mset_half_clean_block)
qed

lemma cross_buffer_zip:
  assumes "length vec1 = length vec2"
  shows "cross_buffer vec1 vec2 =
           map2 std_min vec1 (rev vec2) @ rev (map2 std_max vec1 (rev vec2))"
proof -
  let ?m = "length vec1"
  have "map (\<lambda>i. std_min (vec1 ! i) (vec2 ! (?m - i - 1))) [0..<?m] = map2 std_min vec1 (rev vec2)"
    using assms by (intro nth_equalityI) (simp_all add: rev_nth)
  moreover have "map (\<lambda>j. std_max (vec1 ! (?m - j - 1)) (vec2 ! j)) [0..<?m] =
      rev (map2 std_max vec1 (rev vec2))"
    using assms by (intro nth_equalityI) (simp_all add: rev_nth)
  ultimately show ?thesis
    by (simp add: cross_buffer_def)
qed

lemma mset_cross_buffer:
  assumes "length vec1 = length vec2"
  shows "mset (cross_buffer vec1 vec2) = mset vec1 + mset vec2"
proof -
  have "mset (map2 std_min vec1 (rev vec2)) + mset (map2 std_max vec1 (rev vec2)) =
      mset vec1 + mset (rev vec2)"
    using assms by (intro mset_min_max) simp
  then show ?thesis
    unfolding cross_buffer_zip [OF assms] by simp
qed

subsection \<open>The merge task\<close>

lemma sort_stages_sorts:
  "bitonic_blocks (2 ^ k) c xs \<Longrightarrow>
   \<exists>ys. sort_stages (2 ^ k) (c * 2 ^ k) xs = Inr ys \<and> sorted (map sint ys) \<and> mset ys = mset xs"
proof (induction k arbitrary: c xs)
  case 0
  then have "sorted (map sint xs)"
    by (simp add: bitonic_blocks_sorted)
  moreover have "sort_stages (2 ^ 0) (c * 2 ^ 0) xs = Inr xs"
    by (subst sort_stages.simps) simp
  ultimately show ?case by simp
next
  case (Suc k)
  let ?h = "(2 :: nat) ^ k"
  let ?n = "c * (2 * ?h)"
  let ?ys = "half_clean_all ?h c xs"
  from Suc.prems have bb: "bitonic_blocks (2 * ?h) c xs"
    by simp
  then have len: "length xs = ?n"
    by (simp add: bitonic_blocks_def)
  have launch: "stage_launch xs ?n (2 * ?h) = Inr (stage_results ?h c xs)"
    using len by (intro stage_launch_eq) simp_all
  have collect: "stage_collect (stage_results ?h c xs) ?n (2 * ?h) xs = Inr ?ys"
    using len by (intro stage_collect_eq) simp_all
  have "1 \<le> ?h"
    by simp
  then have "1 < 2 * ?h" "2 * ?h div 2 = ?h"
    by linarith+
  then have step: "sort_stages (2 * ?h) ?n xs = sort_stages ?h ?n ?ys"
    by (subst sort_stages.simps) (simp add: launch collect del: One_nat_def)
  have "bitonic_blocks ?h (2 * c) ?ys"
    using bb by (rule bitonic_blocks_half_clean)
  from Suc.IH [OF this] obtain zs where
    zs: "sort_stages ?h (2 * c * ?h) ?ys = Inr zs" "sorted (map sint zs)" "mset zs = mset ?ys"
    by blast
  have ys: "mset ?ys = mset xs"
    using len by (simp add: mset_half_clean_all)
  have n: "2 * c * ?h = ?n"
    by simp
  have "sort_stages (2 * ?h) ?n xs = Inr zs"
    unfolding step using zs(1) unfolding n .
  then have "sort_stages (2 ^ Suc k) (c * 2 ^ Suc k) xs = Inr zs"
    by simp
  with zs(2,3) ys show ?case by simp
qed

lemma subsorter_task_pow2:
  assumes "sorted (map sint vec1)" and "sorted (map sint vec2)"
    and "length vec1 = 2 ^ k" and "length vec2 = 2 ^ k"
  shows "\<exists>out. subsorter_task [Inr vec1, Inr vec2] = Inr out \<and> sorted (map sint out) \<and>
           mset out = mset vec1 + mset vec2"
proof -
  let ?cb = "cross_buffer vec1 vec2"
  have eq: "length vec1 = length vec2"
    using assms by simp
  have "bitonic_blocks (2 ^ k) 2 ?cb"
    using assms by (intro bitonic_blocks_cross)
  from sort_stages_sorts [OF this] obtain out where
    out: "sort_stages (2 ^ k) (2 * 2 ^ k) ?cb = Inr out" "sorted (map sint out)"
      "mset out = mset ?cb"
    by blast
  have "subsorter_task [Inr vec1, Inr vec2] = sort_stages (2 ^ k) (2 ^ k * 2) ?cb"
    using assms(3,4) by (simp add: subsorter_task_def crosswork_eq [OF eq] Let_def)
  with out show ?thesis
    by (simp add: mset_cross_buffer [OF eq] mult.commute)
qed

section \<open>The shape of the buffer after the cross phase\<close>




lemma bitonicI: "rises_then_falls xs \<or> falls_then_rises xs \<Longrightarrow> bitonic xs"
  unfolding bitonic_def list_ex_iff by (intro bexI [of _ 0]) auto





section \<open>The rounds of the top-level task\<close>

lemma merged_eq:
  assumes "sorted (map sint vec1)" and "sorted (map sint vec2)"
    and "length vec1 = 2 ^ k" and "length vec2 = 2 ^ k"
  shows "subsorter_task [Inr vec1, Inr vec2] = Inr (merged vec1 vec2)"
    and "sorted (map sint (merged vec1 vec2))"
    and "mset (merged vec1 vec2) = mset vec1 + mset vec2"
    and "length (merged vec1 vec2) = 2 ^ Suc k"
proof -
  obtain out where out: "subsorter_task [Inr vec1, Inr vec2] = Inr out" "sorted (map sint out)"
    "mset out = mset vec1 + mset vec2"
    using subsorter_task_pow2 [OF assms] by blast
  then have m: "merged vec1 vec2 = out"
    by (simp add: merged_def)
  show "subsorter_task [Inr vec1, Inr vec2] = Inr (merged vec1 vec2)"
    "sorted (map sint (merged vec1 vec2))" "mset (merged vec1 vec2) = mset vec1 + mset vec2"
    using out by (simp_all add: m)
  have "size (mset out) = size (mset vec1 + mset vec2)"
    by (simp only: out(3))
  then show "length (merged vec1 vec2) = 2 ^ Suc k"
    using assms(3,4) by (simp add: m)
qed

subsection \<open>The first round\<close>

lemma first_round_eq:
  assumes "length nums = c * 2"
  shows "first_round nums (c * 2) =
           Inr (map (\<lambda>b. swapped (nums ! (b * 2)) (nums ! (b * 2 + 1))) [0..<c])"
proof -
  have rs: "range_step 0 (c * 2) 2 = map (\<lambda>b. b * 2) [0..<c]"
    by (intro range_step_blocks) simp
  have "for_each (map (\<lambda>b. b * 2) [0..<c])
          (\<lambda>lo results. launch_swap nums lo nums (lo + 1) results) [] =
        Inr ([] @ concat (map (\<lambda>lo. [swapped (nums ! lo) (nums ! (lo + 1))])
          (map (\<lambda>b. b * 2) [0..<c])))"
  proof (rule for_each_append_results)
    fix lo rs
    assume "lo \<in> set (map (\<lambda>b. b * 2) [0..<c])"
    then obtain b where "b < c" "lo = b * 2" by auto
    then have "lo < length nums" "lo + 1 < length nums"
      using assms by simp_all
    then show "launch_swap nums lo nums (lo + 1) rs = Inr (rs @ [swapped (nums ! lo) (nums ! (lo + 1))])"
      by (rule launch_swap_eq)
  qed
  then show ?thesis
    unfolding first_round_def rs by (simp add: comp_def concat_map_singleton)
qed

lemma first_round_blocks:
  "map (\<lambda>b. swapped (nums ! (b * 2)) (nums ! (b * 2 + 1))) [0..<c] = map Inr (pairs_sorted nums c)"
  by (simp add: pairs_sorted_def swapped_def)

lemma sorted_blocks_pairs: "sorted_blocks 1 (pairs_sorted nums c)"
  by (auto simp: sorted_blocks_def pairs_sorted_def sint_std_min sint_std_max)

lemma mset_pairs_sorted:
  "c * 2 \<le> length nums \<Longrightarrow> mset (concat (pairs_sorted nums c)) = mset (take (c * 2) nums)"
proof (induction c)
  case 0
  show ?case by (simp add: pairs_sorted_def)
next
  case (Suc c)
  let ?a = "nums ! (c * 2)" and ?b = "nums ! (c * 2 + 1)"
  from Suc.prems have lt: "c * 2 < length nums" "Suc (c * 2) < length nums"
    by simp_all
  have "take (Suc c * 2) nums = take (Suc (Suc (c * 2))) nums"
    by simp
  also have "\<dots> = take (c * 2) nums @ [?a, ?b]"
    using lt by (simp add: take_Suc_conv_app_nth)
  finally have tk: "take (Suc c * 2) nums = take (c * 2) nums @ [?a, ?b]" .
  have "pairs_sorted nums (Suc c) = pairs_sorted nums c @ [[std_min ?a ?b, std_max ?a ?b]]"
    by (simp add: pairs_sorted_def)
  moreover have "mset (concat (pairs_sorted nums c)) = mset (take (c * 2) nums)"
    using Suc.prems by (intro Suc.IH) simp
  moreover have "{#std_min ?a ?b, std_max ?a ?b#} = {#?a, ?b#}"
    using std_min_max_cases [of ?a ?b] by auto
  ultimately show ?case
    unfolding tk by simp
qed

lemma length_pairs_sorted: "length (pairs_sorted nums c) = c"
  by (simp add: pairs_sorted_def)

subsection \<open>A round of merge tasks\<close>

lemma merge_round_eq:
  assumes "c * 2 \<le> length prev" and "0 < gap"
  shows "merge_round prev (c * gap) gap =
           Inr (map (\<lambda>j. subsorter_task [prev ! (j * 2), prev ! (j * 2 + 1)]) [0..<c])"
proof -
  let ?F = "\<lambda>j. subsorter_task [prev ! (j * 2), prev ! (j * 2 + 1)]"
  let ?los = "map (\<lambda>b. b * gap) [0..<c]"
  let ?body = "\<lambda>lo (results, j).
             bind_res (vec_at prev (j * 2)) (\<lambda>f1.
             bind_res (vec_at prev (j * 2 + 1)) (\<lambda>f2.
             Inr (results @ [subsorter_task [f1, f2]], j + 1)))"
  let ?P = "\<lambda>b st. st = (map ?F [0..<b], b)"
  have rs: "range_step 0 (c * gap) gap = ?los"
    using assms(2) by (rule range_step_blocks)
  have "\<exists>st. for_each ?los ?body ([], 0) = Inr st \<and> ?P (length ?los) st"
  proof (rule for_each_invariant)
    show "?P 0 ([], 0)" by simp
  next
    fix b st
    assume "b < length ?los" and P: "?P b st"
    then have "b < c" by simp
    then have "b * 2 < length prev" "b * 2 + 1 < length prev"
      using assms(1) by simp_all
    then have "?body (?los ! b) st = Inr (map ?F [0..<b] @ [?F b], b + 1)"
      unfolding P by (simp add: vec_at_def)
    then show "\<exists>st'. ?body (?los ! b) st = Inr st' \<and> ?P (Suc b) st'"
      by simp
  qed
  then have "for_each ?los ?body ([], 0) = Inr (map ?F [0..<c], c)"
    by simp
  then show ?thesis
    unfolding merge_round_def rs by simp
qed

lemma merge_round_blocks:
  assumes "length blocks = c * 2" and "sorted_blocks k blocks" and "0 < gap"
  shows "merge_round (map Inr blocks) (c * gap) gap = Inr (map Inr (merge_pairs blocks c))"
    and "sorted_blocks (Suc k) (merge_pairs blocks c)"
    and "mset (concat (merge_pairs blocks c)) = mset (concat blocks)"
    and "length (merge_pairs blocks c) = c"
proof -
  have blk: "length (blocks ! i) = 2 ^ k" "sorted (map sint (blocks ! i))" if "i < c * 2" for i
    using assms(1,2) that by (simp_all add: sorted_blocks_def)
  have pair: "subsorter_task [Inr (blocks ! (j * 2)), Inr (blocks ! (j * 2 + 1))] =
        Inr (merged (blocks ! (j * 2)) (blocks ! (j * 2 + 1)))"
      "sorted (map sint (merged (blocks ! (j * 2)) (blocks ! (j * 2 + 1))))"
      "mset (merged (blocks ! (j * 2)) (blocks ! (j * 2 + 1))) =
         mset (blocks ! (j * 2)) + mset (blocks ! (j * 2 + 1))"
      "length (merged (blocks ! (j * 2)) (blocks ! (j * 2 + 1))) = 2 ^ Suc k"
    if "j < c" for j
  proof -
    from that have i: "j * 2 < c * 2" "j * 2 + 1 < c * 2" by simp_all
    note m = merged_eq [OF blk(2) [OF i(1)] blk(2) [OF i(2)] blk(1) [OF i(1)] blk(1) [OF i(2)]]
    show "subsorter_task [Inr (blocks ! (j * 2)), Inr (blocks ! (j * 2 + 1))] =
        Inr (merged (blocks ! (j * 2)) (blocks ! (j * 2 + 1)))"
      "sorted (map sint (merged (blocks ! (j * 2)) (blocks ! (j * 2 + 1))))"
      "mset (merged (blocks ! (j * 2)) (blocks ! (j * 2 + 1))) =
         mset (blocks ! (j * 2)) + mset (blocks ! (j * 2 + 1))"
      "length (merged (blocks ! (j * 2)) (blocks ! (j * 2 + 1))) = 2 ^ Suc k"
      by (rule m)+
  qed
  have "merge_round (map Inr blocks) (c * gap) gap =
      Inr (map (\<lambda>j. subsorter_task [map Inr blocks ! (j * 2), map Inr blocks ! (j * 2 + 1)]) [0..<c])"
    using assms(1,3) by (intro merge_round_eq) simp_all
  also have "map (\<lambda>j. subsorter_task [map Inr blocks ! (j * 2), map Inr blocks ! (j * 2 + 1)]) [0..<c] =
      map Inr (merge_pairs blocks c)"
    unfolding merge_pairs_def map_map comp_def
  proof (rule map_cong [OF refl])
    fix j assume "j \<in> set [0..<c]"
    then have j: "j < c" by simp
    then have "j * 2 < length blocks" "j * 2 + 1 < length blocks"
      using assms(1) by simp_all
    then show "subsorter_task [map Inr blocks ! (j * 2), map Inr blocks ! (j * 2 + 1)] =
        Inr (merged (blocks ! (j * 2)) (blocks ! (j * 2 + 1)))"
      using pair(1) [OF j] by simp
  qed
  finally show "merge_round (map Inr blocks) (c * gap) gap = Inr (map Inr (merge_pairs blocks c))" .
  show "sorted_blocks (Suc k) (merge_pairs blocks c)"
    unfolding sorted_blocks_def merge_pairs_def using pair(2,4) by auto
  show "length (merge_pairs blocks c) = c"
    by (simp add: merge_pairs_def)
  show "mset (concat (merge_pairs blocks c)) = mset (concat blocks)"
    using assms(1) pair(3)
  proof (induction c arbitrary: blocks)
    case 0
    then show ?case by (simp add: merge_pairs_def)
  next
    case (Suc c)
    let ?a = "blocks ! (c * 2)" and ?b = "blocks ! (c * 2 + 1)"
    let ?front = "take (c * 2) blocks"
    from Suc.prems(1) have lt: "c * 2 < length blocks" "Suc (c * 2) < length blocks"
      by simp_all
    have "blocks = take (Suc (Suc (c * 2))) blocks"
      using Suc.prems(1) by simp
    also have "\<dots> = ?front @ [?a, ?b]"
      using lt by (simp add: take_Suc_conv_app_nth)
    finally have split: "blocks = ?front @ [?a, ?b]" .
    have same: "merge_pairs blocks c = merge_pairs ?front c"
      unfolding merge_pairs_def by (rule map_cong) simp_all
    have "mset (concat (merge_pairs ?front c)) = mset (concat ?front)"
    proof (rule Suc.IH)
      show "length ?front = c * 2" using Suc.prems(1) by simp
      fix j assume j: "j < c"
      then show "mset (merged (?front ! (j * 2)) (?front ! (j * 2 + 1))) =
          mset (?front ! (j * 2)) + mset (?front ! (j * 2 + 1))"
        using Suc.prems(2) [of j] by simp
    qed
    moreover have "merge_pairs blocks (Suc c) = merge_pairs blocks c @ [merged ?a ?b]"
      by (simp add: merge_pairs_def)
    moreover have "mset (merged ?a ?b) = mset ?a + mset ?b"
      using Suc.prems(2) [of c] by simp
    moreover have "mset (concat blocks) = mset (concat ?front) + (mset ?a + mset ?b)"
      by (subst split) simp
    ultimately show ?case
      by (simp add: same)
  qed
qed

subsection \<open>All rounds\<close>

lemma merge_rounds_sorts:
  "length blocks = 2 ^ d \<Longrightarrow> sorted_blocks k blocks \<Longrightarrow>
   \<exists>its out. merge_rounds (2 ^ Suc k) (2 ^ (k + d)) (pre @ [map Inr blocks]) = Inr its \<and>
     last its = [Inr out] \<and> length out = 2 ^ (k + d) \<and> sorted (map sint out) \<and>
     mset out = mset (concat blocks)"
proof (induction d arbitrary: k blocks pre)
  case 0
  then obtain out where blocks: "blocks = [out]"
    by (cases blocks) simp_all
  with 0 have "length out = 2 ^ k" "sorted (map sint out)"
    by (simp_all add: sorted_blocks_def)
  moreover have "merge_rounds (2 ^ Suc k) (2 ^ (k + 0)) (pre @ [map Inr blocks]) =
      Inr (pre @ [map Inr blocks])"
    by (subst merge_rounds.simps) simp
  ultimately show ?case
    using blocks by simp
next
  case (Suc d)
  let ?gap = "(2 :: nat) ^ Suc k"
  let ?total = "(2 :: nat) ^ (k + Suc d)"
  let ?c = "(2 :: nat) ^ d"
  let ?new = "merge_pairs blocks ?c"
  have total: "?total = ?c * ?gap"
    by (simp add: power_add)
  have len: "length blocks = ?c * 2"
    using Suc.prems(1) by simp
  note round = merge_round_blocks [OF len Suc.prems(2), of ?gap]
  have r: "merge_round (map Inr blocks) ?total ?gap = Inr (map Inr ?new)"
    unfolding total by (rule round(1)) simp
  have "?gap \<le> ?total"
    by (intro power_increasing) simp_all
  then have le: "?gap \<le> ?total \<and> 0 < ?gap"
    by simp
  have step: "merge_rounds ?gap ?total (pre @ [map Inr blocks]) =
      merge_rounds (?gap * 2) ?total ((pre @ [map Inr blocks]) @ [map Inr ?new])"
    by (subst merge_rounds.simps) (simp only: le simp_thms if_True last_snoc r sum.case)
  have "sorted_blocks (Suc k) ?new"
    by (rule round(2)) simp
  moreover have "length ?new = 2 ^ d"
    by (rule round(4)) simp
  ultimately obtain its out where
    io: "merge_rounds (2 ^ Suc (Suc k)) (2 ^ (Suc k + d)) ((pre @ [map Inr blocks]) @ [map Inr ?new]) = Inr its"
      "last its = [Inr out]" "length out = 2 ^ (Suc k + d)" "sorted (map sint out)"
      "mset out = mset (concat ?new)"
    using Suc.IH [of ?new "Suc k" "pre @ [map Inr blocks]"] by blast
  have "mset (concat ?new) = mset (concat blocks)"
    by (rule round(3)) simp
  moreover have "?gap * 2 = 2 ^ Suc (Suc k)" "2 ^ (Suc k + d) = ?total"
    by simp_all
  ultimately have "merge_rounds ?gap ?total (pre @ [map Inr blocks]) = Inr its \<and>
      last its = [Inr out] \<and> length out = ?total \<and> sorted (map sint out) \<and>
      mset out = mset (concat blocks)"
    using io step by simp
  then show ?case by blast
qed

lemma sort_padded_sorts:
  assumes "length nums = 2 ^ Suc d"
  shows "\<exists>out. sort_padded nums (2 ^ Suc d) = Inr out \<and> length out = 2 ^ Suc d \<and>
           sorted (map sint out) \<and> mset out = mset nums"
proof -
  let ?c = "(2 :: nat) ^ d"
  let ?blocks = "pairs_sorted nums ?c"
  have len: "length nums = ?c * 2"
    using assms by simp
  have e: "(2 :: nat) ^ Suc d = ?c * 2"
    by simp
  have first: "first_round nums (2 ^ Suc d) = Inr (map Inr ?blocks)"
    unfolding e first_round_eq [OF len] first_round_blocks ..
  have "length ?blocks = 2 ^ d" "sorted_blocks 1 ?blocks"
    by (rule length_pairs_sorted, rule sorted_blocks_pairs)
  from merge_rounds_sorts [OF this, of "[]"] obtain its out where
    io: "merge_rounds (2 ^ Suc 1) (2 ^ (1 + d)) ([] @ [map Inr ?blocks]) = Inr its"
      "last its = [Inr out]" "length out = 2 ^ (1 + d)" "sorted (map sint out)"
      "mset out = mset (concat ?blocks)"
    by blast
  have ms: "mset (concat ?blocks) = mset nums"
    using len by (simp add: mset_pairs_sorted)
  have rounds: "merge_rounds 4 (2 ^ Suc d) [map Inr ?blocks] = Inr its"
    using io(1) by simp
  have lo: "length out = 2 ^ Suc d"
    using io(3) by simp
  have "sort_padded nums (2 ^ Suc d) = Inr out"
    unfolding sort_padded_def first bind_res_Inr rounds io(2) using lo by simp
  with lo io(4,5) ms show ?thesis by simp
qed

subsection \<open>What is printed\<close>

lemma print_myvec_eq:
  assumes "n \<le> length xs"
  shows "print_myvec xs 0 n = Inr (map shown (take n xs))"
proof -
  have "for_each [0..<n] (\<lambda>i out. bind_res (vec_at xs i) (\<lambda>v. Inr (out @ [shown v]))) [] =
      Inr ([] @ concat (map (\<lambda>i. [shown (xs ! i)]) [0..<n]))"
    using assms by (intro for_each_append_results) (simp add: vec_at_def)
  moreover have "map (\<lambda>i. shown (xs ! i)) [0..<n] = map shown (take n xs)"
    using assms by (intro nth_equalityI) simp_all
  ultimately show ?thesis
    by (simp add: print_myvec_def concat_map_singleton)
qed

lemma sint_le_INT_MAX: "sint (x :: int32) \<le> sint INT_MAX"
proof -
  have "sint x < 2 ^ (LENGTH(32) - 1)"
    by (rule sint_lt)
  moreover have "sint INT_MAX = 2147483647"
    by (simp add: INT_MAX_def)
  ultimately show ?thesis by simp
qed

lemma sorted_same_mset:
  assumes "sorted (map sint xs)" and "sorted (map sint ys)" and "mset xs = mset ys"
  shows "xs = (ys :: int32 list)"
proof -
  have "mset (map sint xs) = mset (map sint ys)"
    using assms(3) by simp
  then have "sort (map sint ys) = map sint xs"
    using assms(1) by (intro properties_for_sort) simp_all
  moreover have "sort (map sint ys) = map sint ys"
    using assms(2) by (rule sorted_sort_id)
  ultimately have "map sint xs = map sint ys"
    by simp
  moreover have "inj (sint :: int32 \<Rightarrow> int)"
    by (rule injI) (rule signed_word_eqI)
  ultimately show ?thesis
    by (simp add: inj_map_eq_map)
qed

lemma padding_at_the_end:
  assumes "sorted (map sint out)" and "mset out = mset (nums @ replicate p INT_MAX)"
  shows "sorted (map sint (take (length nums) out)) \<and> mset (take (length nums) out) = mset nums"
proof -
  let ?r = "sort_key sint nums @ replicate p INT_MAX"
  have "sorted (map sint ?r)"
    by (auto simp: sorted_append sint_le_INT_MAX)
  moreover have "mset out = mset ?r"
    using assms(2) by simp
  ultimately have "out = ?r"
    using assms(1) by (intro sorted_same_mset)
  then have "take (length nums) out = sort_key sint nums"
    by simp
  then show ?thesis
    by simp
qed

lemma pad_inputs_eq:
  assumes "0 < N"
  shows "pad_inputs nums N =
           (nums @ replicate (2 ^ pow2_exponent (int N) - N) INT_MAX, 2 ^ pow2_exponent (int N))"
proof -
  have "next_pow2_loop (int N) = 2 ^ pow2_exponent (int N)"
    using assms by (intro next_pow2_loop_eq) simp
  then have total: "nat (next_pow2_loop (int N)) = 2 ^ pow2_exponent (int N)"
    by (simp add: nat_power_eq)
  show ?thesis
    by (simp add: pad_inputs_def total fold_push_back Let_def)
qed

lemma handle_inputs_count:
  "handle_inputs argv i ([], 0) = Inr (nums, n) \<Longrightarrow> n = length nums"
  by (auto simp: handle_inputs_scan bind_res_def split: sum.splits)

section \<open>The codec on buffers that are too short\<close>

lemma serialize_loop_short:
  "target \<le> length buffer \<Longrightarrow> length buffer < target + length es * sizeof_int \<Longrightarrow>
   serialize_loop es (buffer, target) = Inl OutOfBounds"
proof (induction es arbitrary: buffer target)
  case Nil
  then show ?case by simp
next
  case (Cons e es)
  show ?case
  proof (cases "target + sizeof_int \<le> length buffer")
    case False
    then show ?thesis
      by (simp add: store_def length_to_le)
  next
    case True
    let ?b = "take target buffer @ to_le sizeof_int (uint e) @ drop (target + sizeof_int) buffer"
    have st: "store buffer target (to_le sizeof_int (uint e)) = Inr ?b"
      using True by (simp add: store_def length_to_le)
    have len: "length ?b = length buffer"
      using True by (simp add: length_to_le)
    have "serialize_loop es (?b, target + sizeof_int) = Inl OutOfBounds"
    proof (rule Cons.IH)
      show "target + sizeof_int \<le> length ?b"
        unfolding len by (rule True)
      show "length ?b < target + sizeof_int + length es * sizeof_int"
        unfolding len using Cons.prems(2) by simp
    qed
    then show ?thesis
      by (simp add: st)
  qed
qed

lemma legion_serialize_short:
  assumes "length buffer < legion_buffer_size vec"
  shows "legion_serialize vec buffer = Inl OutOfBounds"
proof (cases "sizeof_size_t \<le> length buffer")
  case False
  then show ?thesis
    by (simp add: legion_serialize_def store_def length_to_le)
next
  case True
  let ?hd = "to_le sizeof_size_t (int (length vec))"
  let ?b = "?hd @ drop sizeof_size_t buffer"
  have st: "store buffer 0 ?hd = Inr ?b"
    using True by (simp add: store_def length_to_le)
  have len: "length ?b = length buffer"
    using True by (simp add: length_to_le)
  have "serialize_loop vec (?b, sizeof_size_t) = Inl OutOfBounds"
  proof (rule serialize_loop_short)
    show "sizeof_size_t \<le> length ?b"
      unfolding len by (rule True)
    show "length ?b < sizeof_size_t + length vec * sizeof_int"
      unfolding len using assms by (simp only: legion_buffer_size_eq)
  qed
  then show ?thesis
    by (simp add: legion_serialize_def st)
qed

lemma deserialize_loop_short:
  "source \<le> length buffer \<Longrightarrow> length buffer < source + k * sizeof_int \<Longrightarrow>
   deserialize_loop k buffer (vec, source) = Inl OutOfBounds"
proof (induction k arbitrary: vec source)
  case 0
  then show ?case by simp
next
  case (Suc k)
  show ?case
  proof (cases "source + sizeof_int \<le> length buffer")
    case False
    then show ?thesis
      by (simp add: load_def)
  next
    case True
    have ld: "load buffer source sizeof_int = Inr (take sizeof_int (drop source buffer))"
      using True by (simp add: load_def)
    have "deserialize_loop k buffer
        (vec @ [word_of_int (from_le (take sizeof_int (drop source buffer)))], source + sizeof_int) =
      Inl OutOfBounds"
      using True Suc.prems(2) by (intro Suc.IH) simp_all
    then show ?thesis
      by (simp add: ld)
  qed
qed

lemma legion_deserialize_short:
  assumes "length vec < 2 ^ 64" and "k < legion_buffer_size vec"
  shows "legion_deserialize (take k (to_le sizeof_size_t (int (length vec)) @ encode_ints vec @ post)) =
     Inl OutOfBounds"
proof -
  let ?hd = "to_le sizeof_size_t (int (length vec))"
  let ?all = "?hd @ encode_ints vec @ post"
  let ?b = "take k ?all"
  have k: "k < sizeof_size_t + length vec * sizeof_int"
    using assms(2) by (simp only: legion_buffer_size_eq)
  have len: "length ?b = k"
    using k by (simp add: length_to_le length_encode_ints)
  show ?thesis
  proof (cases "sizeof_size_t \<le> k")
    case False
    then have "load ?b 0 sizeof_size_t = Inl OutOfBounds"
      unfolding load_def len by simp
    then show ?thesis
      by (simp add: legion_deserialize_def)
  next
    case True
    have "take sizeof_size_t ?b = take sizeof_size_t ?all"
      using True by (simp add: min_def)
    also have "\<dots> = ?hd"
      by (simp add: length_to_le)
    finally have "load ?b 0 sizeof_size_t = Inr ?hd"
      unfolding load_def len using True by simp
    moreover have "nat (from_le ?hd) = length vec"
      using assms(1) by (rule size_le_roundtrip)
    moreover have "deserialize_loop (length vec) ?b ([], sizeof_size_t) = Inl OutOfBounds"
    proof (rule deserialize_loop_short)
      show "sizeof_size_t \<le> length ?b"
        unfolding len by (rule True)
      show "length ?b < sizeof_size_t + length vec * sizeof_int"
        unfolding len by (rule k)
    qed
    ultimately show ?thesis
      by (simp add: legion_deserialize_def)
  qed
qed

section \<open>Properties of the codec, the comparator and the input handling\<close>

text \<open>
  C3. A vector of fewer than \<open>2 ^ 64\<close> elements (every \<^verbatim>\<open>size_t\<close> length) that is
  serialized into a buffer of at least \<open>legion_buffer_size\<close> bytes is read back unchanged
  by the deserializer: same length, same elements, same order. The empty vector and
  vectors that hold \<open>INT_MAX\<close> are instances.
\<close>

theorem codec_roundtrip:
  assumes "length s < 2 ^ 64" and "legion_buffer_size s \<le> length buffer"
  shows "\<exists>bytes n k. legion_serialize s buffer = Inr (bytes, n) \<and>
           legion_deserialize bytes = Inr (s, k)"
  using assms by (simp add: legion_serialize_eq legion_deserialize_eq)

theorem codec_roundtrip_witness:
  "\<exists>bytes n k. legion_serialize [INT_MAX, 5, - 3] (replicate 20 0) = Inr (bytes, n) \<and>
           legion_deserialize bytes = Inr ([INT_MAX, 5, - 3], k)"
  using codec_roundtrip [of "[INT_MAX, 5, - 3]" "replicate 20 0"]
  by (simp add: legion_buffer_size_eq sizeof_int_def sizeof_size_t_def)

text \<open>
  C10. The three codec functions agree on the encoded size \<open>n\<close>, which is
  \<^verbatim>\<open>sizeof(size_t)\<close> plus \<^verbatim>\<open>sizeof(int)\<close> for each element. The serializer returns \<open>n\<close>
  and writes exactly the first \<open>n\<close> bytes of the buffer: they are the length in 8 bytes
  followed by 4 bytes for each element, whatever the buffer held, every byte beyond them
  is as it was, and a buffer of fewer than \<open>n\<close> bytes is overrun. The deserializer
  returns the vector and the same \<open>n\<close> and reads exactly those \<open>n\<close> bytes: the first
  \<open>n\<close> bytes alone give the same result, and it runs over the end of any shorter prefix.
\<close>

theorem codec_sizes_agree:
  assumes "length s < 2 ^ 64" and "legion_buffer_size s \<le> length buffer"
  shows "legion_buffer_size s = sizeof_size_t + length s * sizeof_int \<and>
    (\<exists>bytes. legion_serialize s buffer = Inr (bytes, legion_buffer_size s) \<and>
       length bytes = length buffer \<and>
       take (legion_buffer_size s) bytes = to_le sizeof_size_t (int (length s)) @ encode_ints s \<and>
       drop (legion_buffer_size s) bytes = drop (legion_buffer_size s) buffer \<and>
       legion_deserialize bytes = Inr (s, legion_buffer_size s) \<and>
       legion_deserialize (take (legion_buffer_size s) bytes) = Inr (s, legion_buffer_size s) \<and>
       (\<forall>k<legion_buffer_size s. legion_deserialize (take k bytes) = Inl OutOfBounds)) \<and>
    (\<forall>short. length short < legion_buffer_size s \<longrightarrow>
       legion_serialize s short = Inl OutOfBounds)"
proof -
  let ?n = "legion_buffer_size s"
  let ?enc = "to_le sizeof_size_t (int (length s)) @ encode_ints s"
  let ?bytes = "to_le sizeof_size_t (int (length s)) @ encode_ints s @ drop ?n buffer"
  have n: "?n = sizeof_size_t + length s * sizeof_int"
    by (rule legion_buffer_size_eq)
  have pre: "length ?enc = ?n"
    by (simp add: length_to_le length_encode_ints n)
  have ser: "legion_serialize s buffer = Inr (?bytes, ?n)"
    using assms(2) by (rule legion_serialize_eq)
  have len: "length ?bytes = length buffer"
    using assms(2) pre by simp
  have split: "?bytes = ?enc @ drop ?n buffer"
    by simp
  have first: "take ?n ?bytes = ?enc"
    unfolding split using pre by simp
  have rest: "drop ?n ?bytes = drop ?n buffer"
    unfolding split using pre by simp
  have de: "legion_deserialize ?bytes = Inr (s, ?n)"
    using assms(1) by (rule legion_deserialize_eq)
  have "legion_deserialize (to_le sizeof_size_t (int (length s)) @ encode_ints s @ []) = Inr (s, ?n)"
    using assms(1) by (rule legion_deserialize_eq)
  then have de_first: "legion_deserialize (take ?n ?bytes) = Inr (s, ?n)"
    unfolding first by simp
  have de_short: "\<forall>k<?n. legion_deserialize (take k ?bytes) = Inl OutOfBounds"
    using assms(1) by (intro allI impI legion_deserialize_short)
  have ser_short: "\<forall>short. length short < ?n \<longrightarrow> legion_serialize s short = Inl OutOfBounds"
    by (intro allI impI legion_serialize_short)
  have "\<exists>bytes. legion_serialize s buffer = Inr (bytes, ?n) \<and>
       length bytes = length buffer \<and>
       take ?n bytes = ?enc \<and>
       drop ?n bytes = drop ?n buffer \<and>
       legion_deserialize bytes = Inr (s, ?n) \<and>
       legion_deserialize (take ?n bytes) = Inr (s, ?n) \<and>
       (\<forall>k<?n. legion_deserialize (take k bytes) = Inl OutOfBounds)"
    apply (rule exI [of _ ?bytes])
    apply (intro conjI)
          apply (rule ser)
         apply (rule len)
        apply (rule first)
       apply (rule rest)
      apply (rule de)
     apply (rule de_first)
    apply (rule de_short)
    done
  with n ser_short show ?thesis
    by (intro conjI)
qed

theorem codec_sizes_agree_witness:
  "legion_buffer_size [INT_MAX, 5] = 16 \<and>
   legion_serialize [INT_MAX, 5] (replicate 17 7) =
     Inr ([2, 0, 0, 0, 0, 0, 0, 0, 255, 255, 255, 127, 5, 0, 0, 0, 7], 16) \<and>
   legion_deserialize [2, 0, 0, 0, 0, 0, 0, 0, 255, 255, 255, 127, 5, 0, 0, 0, 7] =
     Inr ([INT_MAX, 5], 16) \<and>
   legion_deserialize [2, 0, 0, 0, 0, 0, 0, 0, 255, 255, 255, 127, 5, 0, 0, 0] =
     Inr ([INT_MAX, 5], 16) \<and>
   legion_deserialize [2, 0, 0, 0, 0, 0, 0, 0, 255, 255, 255, 127, 5, 0, 0] = Inl OutOfBounds \<and>
   legion_serialize [INT_MAX, 5] (replicate 15 7) = Inl OutOfBounds"
proof -
  have a: "length [INT_MAX, 5 :: int32] < 2 ^ 64"
    by simp
  have n: "legion_buffer_size [INT_MAX, 5] = 16"
    by (simp add: legion_buffer_size_eq sizeof_size_t_def sizeof_int_def)
  have b: "legion_buffer_size [INT_MAX, 5] \<le> length (replicate 17 (7 :: byte))"
    by (simp add: n)
  have enc: "to_le sizeof_size_t (int (length [INT_MAX, 5 :: int32])) @ encode_ints [INT_MAX, 5] =
      [2, 0, 0, 0, 0, 0, 0, 0, 255, 255, 255, 127, 5, 0, 0, 0]"
    by code_simp
  from codec_sizes_agree [OF a b] obtain bytes where
    ser: "legion_serialize [INT_MAX, 5] (replicate 17 7) = Inr (bytes, 16)"
    and len: "length bytes = 17"
    and first: "take 16 bytes = [2, 0, 0, 0, 0, 0, 0, 0, 255, 255, 255, 127, 5, 0, 0, 0]"
    and rest: "drop 16 bytes = drop 16 (replicate 17 7)"
    and de: "legion_deserialize bytes = Inr ([INT_MAX, 5], 16)"
    and de_first: "legion_deserialize (take 16 bytes) = Inr ([INT_MAX, 5], 16)"
    and de_short: "\<forall>k<16. legion_deserialize (take k bytes) = Inl OutOfBounds"
    and ser_short: "\<forall>short. length short < 16 \<longrightarrow>
       legion_serialize [INT_MAX, 5] short = Inl OutOfBounds"
    unfolding n enc by auto
  have "bytes = take 16 bytes @ drop 16 bytes"
    by simp
  then have bytes: "bytes = [2, 0, 0, 0, 0, 0, 0, 0, 255, 255, 255, 127, 5, 0, 0, 0, 7]"
    unfolding first rest by simp
  have "take 15 bytes = [2, 0, 0, 0, 0, 0, 0, 0, 255, 255, 255, 127, 5, 0, 0]"
    unfolding bytes by simp
  moreover have "legion_deserialize (take 15 bytes) = Inl OutOfBounds"
    using de_short by simp
  ultimately have short: "legion_deserialize [2, 0, 0, 0, 0, 0, 0, 0, 255, 255, 255, 127, 5, 0, 0] =
      Inl OutOfBounds"
    by simp
  have "legion_serialize [INT_MAX, 5] (replicate 15 7) = Inl OutOfBounds"
    using ser_short by simp
  with n ser de de_first short show ?thesis
    unfolding bytes first by simp
qed

text \<open>
  C5. On every pair \<open>(a, b)\<close>, equal or not, the comparator task returns the two-element
  vector of the smaller and the larger of \<open>a\<close> and \<open>b\<close> as signed integers.
\<close>

theorem single_swap_task_min_max:
  "\<exists>lo hi. single_swap_task [a, b] = Inr [lo, hi] \<and>
     sint lo = min (sint a) (sint b) \<and> sint hi = max (sint a) (sint b)"
  by (simp add: single_swap_task_def sint_std_min sint_std_max)

text \<open>
  C4. For \<open>N \<ge> 1\<close> inputs the padded vector has \<open>2 ^ k\<close> elements, where \<open>2 ^ k\<close> is the
  least power of two that is not below \<open>N\<close>; its first \<open>N\<close> slots are the inputs, the
  others hold \<open>INT_MAX\<close>; and when \<open>N\<close> is a power of two nothing is added.
\<close>

theorem pad_inputs_next_pow2:
  assumes "length nums = N" and "1 \<le> N"
  shows "\<exists>padded k. pad_inputs nums N = (padded, 2 ^ k) \<and> length padded = 2 ^ k \<and>
           N \<le> 2 ^ k \<and> (\<forall>j. N \<le> 2 ^ j \<longrightarrow> k \<le> j) \<and>
           (\<forall>i<N. padded ! i = nums ! i) \<and>
           (\<forall>i. N \<le> i \<and> i < 2 ^ k \<longrightarrow> padded ! i = INT_MAX) \<and>
           ((\<exists>j. N = 2 ^ j) \<longrightarrow> padded = nums)"
proof -
  let ?k = "pow2_exponent (int N)"
  let ?padded = "nums @ replicate (2 ^ ?k - N) INT_MAX"
  have "next_pow2_loop (int N) = 2 ^ ?k"
    using assms(2) by (intro next_pow2_loop_eq) simp
  then have total: "nat (next_pow2_loop (int N)) = 2 ^ ?k"
    by (simp add: nat_power_eq)
  have pad: "pad_inputs nums N = (?padded, 2 ^ ?k)"
    by (simp add: pad_inputs_def total fold_push_back Let_def)
  have "int N \<le> 2 ^ ?k"
    by (rule pow2_exponent_ge)
  then have "int N \<le> int (2 ^ ?k)"
    by simp
  then have ge: "N \<le> 2 ^ ?k"
    by (simp only: of_nat_le_iff)
  have least: "?k \<le> j" if "N \<le> 2 ^ j" for j
  proof -
    have "int N \<le> int (2 ^ j)"
      using that by (simp only: of_nat_le_iff)
    then show ?thesis
      by (intro pow2_exponent_le) simp
  qed
  have len: "length ?padded = 2 ^ ?k"
    using assms(1) ge by simp
  have low: "\<forall>i<N. ?padded ! i = nums ! i"
    using assms(1) by (simp add: nth_append)
  have high: "\<forall>i. N \<le> i \<and> i < 2 ^ ?k \<longrightarrow> ?padded ! i = INT_MAX"
    using assms(1) by (auto simp: nth_append)
  have same: "?padded = nums" if "N = 2 ^ j" for j
  proof -
    have "int N = 2 ^ j"
      using that by simp
    then have "?k = j"
      by (simp add: pow2_exponent_pow2)
    then show ?thesis
      using that by simp
  qed
  have least': "\<forall>j. N \<le> 2 ^ j \<longrightarrow> ?k \<le> j"
    using least by (intro allI impI)
  have same': "(\<exists>j. N = 2 ^ j) \<longrightarrow> ?padded = nums"
  proof
    assume "\<exists>j. N = 2 ^ j"
    then obtain j where "N = 2 ^ j" ..
    then show "?padded = nums" by (rule same)
  qed
  show ?thesis
    apply (rule exI [of _ ?padded])
    apply (rule exI [of _ ?k])
    apply (rule conjI, rule pad)
    apply (rule conjI, rule len)
    apply (rule conjI, rule ge)
    apply (rule conjI, rule least')
    apply (rule conjI, rule low)
    apply (rule conjI, rule high)
    apply (rule same')
    done
qed

theorem pad_inputs_next_pow2_witness:
  "\<exists>padded k. pad_inputs [1, 2, 3] 3 = (padded, 2 ^ k) \<and> length padded = 2 ^ k \<and>
           3 \<le> (2::nat) ^ k \<and> k \<le> 2 \<and> padded ! 0 = 1"
proof -
  have h: "length [1, 2, 3 :: int32] = 3" "1 \<le> (3::nat)"
    by simp_all
  obtain padded k where p: "pad_inputs [1, 2, 3] 3 = (padded, 2 ^ k)" "length padded = 2 ^ k"
    "3 \<le> (2::nat) ^ k" "\<forall>j. 3 \<le> (2::nat) ^ j \<longrightarrow> k \<le> j" "\<forall>i<3. padded ! i = [1, 2, 3] ! i"
    using pad_inputs_next_pow2 [OF h] by blast
  have "(3::nat) \<le> 2 ^ 2" by simp
  with p(4) have "k \<le> 2" by blast
  moreover have "padded ! 0 = 1" using p(5) by simp
  ultimately show ?thesis using p(1,2,3) by blast
qed

text \<open>
  C6, as the code has it. On the single input 5 the normalizer adds nothing: 1 is a
  power of two, and the vector stays \<open>[5]\<close> with \<open>num_total = 1\<close>.
\<close>

theorem single_input_no_padding:
  "handle_inputs [''bitonic_sorter'', ''5''] 1 ([], 0) = Inr ([5], 1) \<and>
   pad_inputs [5] 1 = ([5], 1)"
  by code_simp

text \<open>
  C6, as stated, fails: the padded vector is not \<open>[5, INT_MAX]\<close>, and the task does
  not print 5.
\<close>

theorem single_input_not_padded_to_two:
  "fst (pad_inputs [5] 1) \<noteq> [5, INT_MAX] \<and>
   top_level_task [''bitonic_sorter'', ''5''] \<noteq> Inr [Number 5]"
  by code_simp

text \<open>
  C1, at the input on which the code fails. With the single input 5, \<open>num_total\<close> is
  1 and the first round reads \<^verbatim>\<open>nums[1]\<close>, one past the end of the vector.
\<close>

theorem single_input_out_of_bounds:
  "top_level_task [''bitonic_sorter'', ''5''] = Inl OutOfBounds"
  by code_simp

text \<open>
  With two or more inputs the task does sort: what it prints are the inputs in
  non-decreasing order, each as often as it was given (\<open>INT_MAX\<close> is printed as
  \<^verbatim>\<open>#\<close>).
\<close>

lemma top_level_task_sorts:
  assumes "handle_inputs argv 1 ([], 0) = Inr (nums, n)" and "2 \<le> length nums"
  shows "\<exists>ys. top_level_task argv = Inr (map shown ys) \<and> sorted (map sint ys) \<and>
           mset ys = mset nums"
proof -
  define T :: nat where "T = 2 ^ pow2_exponent (int n)"
  let ?padded = "nums @ replicate (T - n) INT_MAX"
  have n: "n = length nums"
    using assms(1) by (rule handle_inputs_count)
  with assms(2) have n2: "2 \<le> n" by simp
  have pad: "pad_inputs nums n = (?padded, T)"
    unfolding T_def using n2 by (intro pad_inputs_eq) simp
  have "int n \<le> 2 ^ pow2_exponent (int n)"
    by (rule pow2_exponent_ge)
  then have "int n \<le> int T"
    by (simp add: T_def)
  then have ge: "n \<le> T"
    by (simp only: of_nat_le_iff)
  obtain d where T: "T = 2 ^ Suc d"
  proof (cases "pow2_exponent (int n)")
    case 0
    with ge n2 show ?thesis by (simp add: T_def)
  next
    case (Suc d)
    then have "T = 2 ^ Suc d" by (simp add: T_def)
    then show ?thesis by (rule that)
  qed
  have "length ?padded = T"
    using ge by (simp add: n)
  then have "length ?padded = 2 ^ Suc d"
    unfolding T .
  from sort_padded_sorts [OF this] obtain out where
    out: "sort_padded ?padded (2 ^ Suc d) = Inr out" "length out = 2 ^ Suc d"
      "sorted (map sint out)" "mset out = mset ?padded"
    by blast
  have sp: "sort_padded ?padded T = Inr out"
    using out(1) by (simp only: T [symmetric])
  have "n \<le> length out"
    using ge out(2) by (simp only: T [symmetric])
  then have pr: "print_myvec out 0 n = Inr (map shown (take n out))"
    by (rule print_myvec_eq)
  have "\<not> \<not> 0 < n"
    using n2 by simp
  then have "top_level_task argv = Inr (map shown (take n out))"
    unfolding top_level_task_def assms(1) bind_res_Inr prod.case pad Let_def sp pr
    by (simp only: if_False)
  moreover have "sorted (map sint (take n out)) \<and> mset (take n out) = mset nums"
    unfolding n using out(3,4) by (intro padding_at_the_end [where p = "T - n"])
  ultimately show ?thesis by blast
qed

text \<open>
  The outcome of the loop depends on a token only through whether it is a flag and
  through what \<^verbatim>\<open>atoi\<close> returns for it.
\<close>

lemma atoi_all_scan_cong:
  "list_all2 (\<lambda>a b. is_flag a = is_flag b \<and> atoi a = atoi b) xs ys \<Longrightarrow>
   atoi_all (scan xs) = atoi_all (scan ys)"
proof (induction xs arbitrary: ys rule: scan.induct)
  case 1
  then show ?case by simp
next
  case (2 t ts)
  from "2.prems" obtain u us where ys: "ys = u # us"
    and tu: "is_flag t = is_flag u" "atoi t = atoi u"
    and rest: "list_all2 (\<lambda>a b. is_flag a = is_flag b \<and> atoi a = atoi b) ts us"
    by (auto simp: list_all2_Cons1)
  show ?case
  proof (cases "is_flag t")
    case True
    have "list_all2 (\<lambda>a b. is_flag a = is_flag b \<and> atoi a = atoi b) (drop 1 ts) (drop 1 us)"
      using rest by (rule list_all2_dropI)
    with True have "atoi_all (scan (drop 1 ts)) = atoi_all (scan (drop 1 us))"
      by (rule "2.IH"(1))
    then show ?thesis
      using True tu(1) by (simp add: ys)
  next
    case False
    from False rest have "atoi_all (scan ts) = atoi_all (scan us)"
      by (rule "2.IH"(2))
    then show ?thesis
      using False tu by (simp add: ys)
  qed
qed

lemma handle_inputs_non_numeric:
  assumes "i < length args" and "\<not> is_flag (args ! i)" and "no_number (args ! i)"
  shows "handle_inputs (prog # args[i := ''0'']) 1 ([], 0) = handle_inputs (prog # args) 1 ([], 0)"
proof -
  have flag: "is_flag ''0'' = is_flag (args ! i)"
    using assms(2) by (simp add: is_flag_def first_char_def)
  have "atoi ''0'' = Inr 0"
    by code_simp
  then have val: "atoi ''0'' = atoi (args ! i)"
    using atoi_no_number [OF assms(3)] by simp
  have "list_all2 (\<lambda>a b. is_flag a = is_flag b \<and> atoi a = atoi b) (args[i := ''0'']) args"
    using assms(1) flag val by (simp add: list_all2_conv_all_nth nth_list_update)
  then have "atoi_all (scan (args[i := ''0''])) = atoi_all (scan args)"
    by (rule atoi_all_scan_cong)
  then show ?thesis
    by (simp add: handle_inputs_scan)
qed

lemma atoi_all_member:
  "atoi_all ts = Inr vs \<Longrightarrow> t \<in> set ts \<Longrightarrow> atoi t = Inr v \<Longrightarrow> v \<in> set vs"
  by (induction ts arbitrary: vs) (auto simp: bind_res_def split: sum.splits)

lemma taken_input_token:
  "i < length args \<Longrightarrow> taken args i \<Longrightarrow> args ! i \<in> set (input_tokens args)"
  by (simp add: input_tokens_def)

text \<open>
  C7, as the code has it. An argument that is no flag and in which \<^verbatim>\<open>atoi\<close> finds no
  digit is not rejected: the task does on the argument list what it does on the list with
  that argument written \<^verbatim>\<open>0\<close>. When the loop reads the argument and returns at least two
  inputs, the task sorts: it prints the inputs that the loop returned in non-decreasing
  order, each as often as it was read, with 0 among them.
\<close>

theorem non_numeric_argument_is_zero:
  assumes "i < length args" and "\<not> is_flag (args ! i)" and "no_number (args ! i)"
  shows "top_level_task (prog # args[i := ''0'']) = top_level_task (prog # args) \<and>
    (taken args i \<and> handle_inputs (prog # args) 1 ([], 0) = Inr (nums, n) \<and> 2 \<le> n \<longrightarrow>
       (\<exists>ys. top_level_task (prog # args) = Inr (map shown ys) \<and> length ys = n \<and>
          sorted (map sint ys) \<and> mset ys = mset nums \<and> 0 \<in> set ys))"
proof (intro conjI impI)
  show "top_level_task (prog # args[i := ''0'']) = top_level_task (prog # args)"
    unfolding top_level_task_def handle_inputs_non_numeric [OF assms] by (rule refl)
next
  assume a: "taken args i \<and> handle_inputs (prog # args) 1 ([], 0) = Inr (nums, n) \<and> 2 \<le> n"
  then have h: "handle_inputs (prog # args) 1 ([], 0) = Inr (nums, n)"
    by simp
  have n: "n = length nums"
    using h by (rule handle_inputs_count)
  with a have "2 \<le> length nums"
    by simp
  with h obtain ys where ys: "top_level_task (prog # args) = Inr (map shown ys)"
      "sorted (map sint ys)" "mset ys = mset nums"
    using top_level_task_sorts by blast
  have "atoi_all (input_tokens args) = Inr nums"
    using h by (auto simp: handle_inputs_scan scan_input_tokens bind_res_def split: sum.splits)
  moreover have "args ! i \<in> set (input_tokens args)"
    using assms(1) a by (simp add: taken_input_token)
  moreover have "atoi (args ! i) = Inr 0"
    using assms(3) by (rule atoi_no_number)
  ultimately have "0 \<in> set nums"
    by (rule atoi_all_member)
  then have "0 \<in> set ys"
    using ys(3) by (metis set_mset_mset)
  moreover have "length ys = n"
    using ys(3) n by (metis size_mset)
  ultimately show "\<exists>ys. top_level_task (prog # args) = Inr (map shown ys) \<and> length ys = n \<and>
          sorted (map sint ys) \<and> mset ys = mset nums \<and> 0 \<in> set ys"
    using ys by blast
qed

theorem non_numeric_argument_is_zero_witness:
  "top_level_task [''bitonic_sorter'', ''0'', ''7''] =
     top_level_task [''bitonic_sorter'', ''abc'', ''7''] \<and>
   (\<exists>ys. top_level_task [''bitonic_sorter'', ''abc'', ''7''] = Inr (map shown ys) \<and>
      length ys = 2 \<and> sorted (map sint ys) \<and> mset ys = mset [0, 7] \<and> 0 \<in> set ys)"
proof -
  have a: "0 < length [''abc'', ''7'']"
    by simp
  have b: "\<not> is_flag ([''abc'', ''7''] ! 0)"
    by (simp add: is_flag_def first_char_def)
  have c: "no_number ([''abc'', ''7''] ! 0)"
    by (simp add: no_number_def isspace_def isdigit_def)
  have d: "taken [''abc'', ''7''] 0"
    by (simp add: taken_def flags_before_def is_flag_def first_char_def)
  have e: "handle_inputs (''bitonic_sorter'' # [''abc'', ''7'']) 1 ([], 0) = Inr ([0, 7], 2)"
    by code_simp
  show ?thesis
    using non_numeric_argument_is_zero [OF a b c, of "''bitonic_sorter''" "[0, 7]" 2] d e
    by simp
qed

text \<open>
  C7, as stated, fails: with the argument \<^verbatim>\<open>abc\<close> the task reports no error and
  sorts it as 0.
\<close>

theorem non_numeric_is_sorted:
  "top_level_task [''bitonic_sorter'', ''abc'', ''7''] = Inr [Number 0, Number 7]"
  by code_simp

text \<open>
  C9, as the code has it. The loop reads the tokens from left to right; a flag that it
  reaches and the token after that flag are passed over as a pair, and every other
  token is converted in order. By positions: a token is read exactly when it is no flag
  and the run of flags that ends just before it has even length.
\<close>

theorem handle_inputs_skips_pairs:
  "handle_inputs (prog # args) 1 ([], 0) = read_tokens (input_tokens args)"
  by (simp add: handle_inputs_scan scan_input_tokens read_tokens_def)

text \<open>
  C9, as stated, fails: in \<^verbatim>\<open>-a -b 3\<close> the token \<^verbatim>\<open>3\<close> follows a token that begins
  with \<^verbatim>\<open>-\<close>, and the loop reads it, since \<^verbatim>\<open>-b\<close> was passed over as the value of
  \<^verbatim>\<open>-a\<close>.
\<close>

theorem handle_inputs_not_by_spec:
  "handle_inputs [''bitonic_sorter'', ''-a'', ''-b'', ''3''] 1 ([], 0) = Inr ([3], 1) \<and>
   read_tokens (inputs_by_spec [''-a'', ''-b'', ''3'']) = Inr ([], 0)"
  by code_simp

section \<open>Properties of the merge task\<close>

text \<open>
  C2, as the code has it. The merge task is given two non-decreasing vectors of the
  same length \<open>m\<close>, where \<open>m\<close> is a power of two (or 0). It returns a vector of length
  \<open>2 * m\<close> that is non-decreasing and has the elements of the two inputs, each as often
  as they have it together.
\<close>

theorem subsorter_task_merges:
  assumes "sorted (map sint vec1)" and "sorted (map sint vec2)"
    and "length vec1 = m" and "length vec2 = m"
    and "m = 0 \<or> (\<exists>k. m = 2 ^ k)"
  shows "\<exists>out. subsorter_task [Inr vec1, Inr vec2] = Inr out \<and> length out = 2 * m \<and>
           sorted (map sint out) \<and> mset out = mset vec1 + mset vec2"
proof -
  have "\<exists>out. subsorter_task [Inr vec1, Inr vec2] = Inr out \<and> sorted (map sint out) \<and>
           mset out = mset vec1 + mset vec2"
  proof (cases "m = 0")
    case True
    with assms(3,4) have "vec1 = []" "vec2 = []"
      by simp_all
    moreover have "subsorter_task [Inr [], Inr []] = Inr []"
      by code_simp
    ultimately show ?thesis by simp
  next
    case False
    with assms(5) obtain k where "m = 2 ^ k"
      by blast
    with assms(1-4) show ?thesis
      by (intro subsorter_task_pow2) simp_all
  qed
  then obtain out where out: "subsorter_task [Inr vec1, Inr vec2] = Inr out"
    "sorted (map sint out)" "mset out = mset vec1 + mset vec2"
    by blast
  have "size (mset out) = size (mset vec1 + mset vec2)"
    by (simp only: out(3))
  then have "length out = 2 * m"
    using assms(3,4) by simp
  with out show ?thesis by blast
qed

theorem subsorter_task_merges_witness:
  "\<exists>out. subsorter_task [Inr [1, 5], Inr [2, 3]] = Inr out \<and> length out = 2 * 2 \<and>
           sorted (map sint out) \<and> mset out = mset [1, 5] + mset [2, 3]"
proof (rule subsorter_task_merges)
  show "sorted (map sint [1, 5 :: int32])" by code_simp
  show "sorted (map sint [2, 3 :: int32])" by code_simp
  show "length [1, 5 :: int32] = 2" by simp
  show "length [2, 3 :: int32] = 2" by simp
  have "(2 :: nat) = 2 ^ 1" by simp
  then show "(2 :: nat) = 0 \<or> (\<exists>k. (2 :: nat) = 2 ^ k)" by blast
qed

text \<open>
  C2, as stated for every length \<open>m\<close>, fails: on the non-decreasing vectors
  \<open>[1, 5, 6]\<close> and \<open>[2, 3, 4]\<close> of length 3 the merge task returns
  \<open>[1, 3, 2, 5, 6, 4]\<close>, which is not in order.
\<close>

theorem subsorter_task_length_3_unsorted:
  "sorted (map sint [1, 5, 6 :: int32]) \<and> sorted (map sint [2, 3, 4 :: int32]) \<and>
   subsorter_task [Inr [1, 5, 6], Inr [2, 3, 4]] = Inr [1, 3, 2, 5, 6, 4] \<and>
   \<not> sorted (map sint [1, 3, 2, 5, 6, 4 :: int32])"
  by code_simp




end
